theory Spec2Isabelle
  imports Complex_Main "HOL-Library.AList" "HOL-Library.Sublist"
begin

section \<open>Values of a loaded configuration\<close>

text \<open>
  \<^verbatim>\<open>yaml.safe_load\<close> and \<^verbatim>\<open>json.load\<close> return Python values: \<^verbatim>\<open>None\<close>, booleans,
  numbers, strings, lists and dicts. A dict is kept as an association list in insertion
  order; lookups read the first entry of a key, as \<open>map_of\<close> does. Keys are strings, as
  in every JSON document and in the data model of the specification. A value is a tree:
  no node is shared between two places. This is what \<^verbatim>\<open>json.load\<close> returns for a
  report and what the data model of the specification describes; documents and findings
  with shared objects are the subject of the section on the store below. Floats are the
  finite ones.
\<close>

datatype pyval =
    PNone
  | PBool bool
  | PInt int
  | PFloat real
  | PStr string
  | PList "pyval list"
  | PDict "(string \<times> pyval) list"

text \<open>The exceptions the body of \<^verbatim>\<open>remediate_misconfiguration\<close> can raise.\<close>

datatype pyerror = AttributeError | TypeError | KeyError

text \<open>
  What the function reports for one finding. The source reports through its log: the
  info line "Changing value of ... from ... to ..." is \<open>Applied\<close>, the warning
  "Missing 'path' or 'suggested_value' ..." is \<open>SkippedMissingFields\<close>, the warning
  "Path ... not found in configuration" is \<open>SkippedPathNotFound\<close>, and the error line
  of the exception handler is \<open>ErrorLogged\<close>.
\<close>

datatype outcome =
    Applied pyval pyval
  | SkippedMissingFields
  | SkippedPathNotFound
  | ErrorLogged pyerror

section \<open>Python primitives used by the source\<close>

text \<open>Truth value of an object, as \<^verbatim>\<open>not x\<close> tests it.\<close>

fun truthy :: "pyval \<Rightarrow> bool" where
  "truthy PNone = False"
| "truthy (PBool b) = b"
| "truthy (PInt i) = (i \<noteq> 0)"
| "truthy (PFloat r) = (r \<noteq> 0)"
| "truthy (PStr s) = (s \<noteq> [])"
| "truthy (PList xs) = (xs \<noteq> [])"
| "truthy (PDict kvs) = (kvs \<noteq> [])"

text \<open>\<^verbatim>\<open>x.get(k)\<close>: only a dict has the method; a missing key gives \<^verbatim>\<open>None\<close>.\<close>

fun py_get :: "pyval \<Rightarrow> string \<Rightarrow> pyerror + pyval" where
  "py_get (PDict kvs) k = Inr (case map_of kvs k of None \<Rightarrow> PNone | Some v \<Rightarrow> v)"
| "py_get _ k = Inl AttributeError"

text \<open>\<^verbatim>\<open>s.split(".")\<close> on a string: never empty, one more part than there are dots.\<close>

fun split_from :: "string \<Rightarrow> string \<Rightarrow> string list" where
  "split_from cur [] = [cur]"
| "split_from cur (c # cs) =
     (if c = CHR ''.'' then cur # split_from [] cs else split_from (cur @ [c]) cs)"

definition split_dot :: "string \<Rightarrow> string list" where
  "split_dot s = split_from [] s"

fun py_split :: "pyval \<Rightarrow> pyerror + string list" where
  "py_split (PStr s) = Inr (split_dot s)"
| "py_split _ = Inl AttributeError"

text \<open>\<^verbatim>\<open>s.startswith(k)\<close> and the substring test \<^verbatim>\<open>k in s\<close> of two strings.\<close>

fun starts_with :: "string \<Rightarrow> string \<Rightarrow> bool" where
  "starts_with [] s = True"
| "starts_with (k # ks) [] = False"
| "starts_with (k # ks) (c # cs) = (k = c \<and> starts_with ks cs)"

fun substring_of :: "string \<Rightarrow> string \<Rightarrow> bool" where
  "substring_of k [] = (k = [])"
| "substring_of k (c # cs) = (starts_with k (c # cs) \<or> substring_of k cs)"

text \<open>
  \<^verbatim>\<open>k in x\<close> for a string \<open>k\<close>: key membership in a dict, substring test in a string,
  element test in a list, and a \<^verbatim>\<open>TypeError\<close> on \<^verbatim>\<open>None\<close>, booleans and numbers.
\<close>

fun py_contains :: "pyval \<Rightarrow> string \<Rightarrow> pyerror + bool" where
  "py_contains (PDict kvs) k = Inr (k \<in> set (map fst kvs))"
| "py_contains (PStr s) k = Inr (substring_of k s)"
| "py_contains (PList xs) k = Inr (PStr k \<in> set xs)"
| "py_contains _ k = Inl TypeError"

text \<open>\<^verbatim>\<open>x[k]\<close> for a string \<open>k\<close>: only a dict can be indexed by a string.\<close>

fun py_getitem :: "pyval \<Rightarrow> string \<Rightarrow> pyerror + pyval" where
  "py_getitem (PDict kvs) k = (case map_of kvs k of None \<Rightarrow> Inl KeyError | Some v \<Rightarrow> Inr v)"
| "py_getitem _ k = Inl TypeError"

text \<open>\<^verbatim>\<open>x[k] = v\<close>: rebinds the key where it stands, or appends a new key.\<close>

fun py_setitem :: "pyval \<Rightarrow> string \<Rightarrow> pyval \<Rightarrow> pyerror + pyval" where
  "py_setitem (PDict kvs) k v = Inr (PDict (AList.update k v kvs))"
| "py_setitem _ k v = Inl TypeError"

section \<open>remediate\_misconfiguration\<close>

text \<open>
  The loop of lines 103 to 108 over \<^verbatim>\<open>parts[:-1]\<close>: \<open>Inr (Some node)\<close> is the value of
  \<^verbatim>\<open>current\<close> after the loop, \<open>Inr None\<close> the early \<^verbatim>\<open>return config\<close> of line 108,
  \<open>Inl e\<close> an exception raised by \<^verbatim>\<open>in\<close> or by the subscript.
\<close>

fun descend :: "pyval \<Rightarrow> string list \<Rightarrow> pyerror + pyval option" where
  "descend current [] = Inr (Some current)"
| "descend current (p # ps) =
     (case py_contains current p of
        Inl e \<Rightarrow> Inl e
      | Inr False \<Rightarrow> Inr None
      | Inr True \<Rightarrow>
          (case py_getitem current p of
             Inl e \<Rightarrow> Inl e
           | Inr child \<Rightarrow> descend child ps))"

text \<open>
  The assignment of line 114 changes the dict \<^verbatim>\<open>current\<close> in place, and \<^verbatim>\<open>current\<close> is
  the node of \<^verbatim>\<open>config\<close> reached along \<^verbatim>\<open>parts[:-1]\<close>. On the tree, this is the
  document with the entry at the end of the path rebound; \<open>store_at\<close> computes it.
  Where the path does not lead through dicts the tree is returned as it is (the source
  never assigns there). On a tree the dict reached has one place, the end of the path;
  the assignment to a dict that has several is \<open>store_remediate_path\<close> below.
\<close>

fun store_at :: "pyval \<Rightarrow> string list \<Rightarrow> pyval \<Rightarrow> pyval" where
  "store_at (PDict kvs) [k] v = PDict (AList.update k v kvs)"
| "store_at (PDict kvs) (p # q # ps) v =
     (case map_of kvs p of
        None \<Rightarrow> PDict kvs
      | Some child \<Rightarrow> PDict (AList.update p (store_at child (q # ps) v) kvs))"
| "store_at c ps v = c"

text \<open>
  Lines 101 to 117: the walk along \<^verbatim>\<open>parts\<close> and the assignment to the last key.
  The subscript \<^verbatim>\<open>current[last_part]\<close> of the log line on 113 is read before the
  assignment of line 114.
\<close>

definition remediate_path :: "pyval \<Rightarrow> string list \<Rightarrow> pyval \<Rightarrow> pyerror + (pyval \<times> outcome)" where
  "remediate_path config parts suggested_value =
     (case descend config (butlast parts) of
        Inl e \<Rightarrow> Inl e
      | Inr None \<Rightarrow> Inr (config, SkippedPathNotFound)
      | Inr (Some current) \<Rightarrow>
          (case py_contains current (last parts) of
             Inl e \<Rightarrow> Inl e
           | Inr False \<Rightarrow> Inr (config, SkippedPathNotFound)
           | Inr True \<Rightarrow>
               (case py_getitem current (last parts) of
                  Inl e \<Rightarrow> Inl e
                | Inr old_value \<Rightarrow>
                    (case py_setitem current (last parts) suggested_value of
                       Inl e \<Rightarrow> Inl e
                     | Inr _ \<Rightarrow>
                         Inr (store_at config parts suggested_value,
                              Applied old_value suggested_value)))))"

text \<open>The body of the \<^verbatim>\<open>try\<close> block, lines 92 to 117.\<close>

definition remediate_body :: "pyval \<Rightarrow> pyval \<Rightarrow> pyerror + (pyval \<times> outcome)" where
  "remediate_body config misconfiguration =
     (case py_get misconfiguration ''path'' of
        Inl e \<Rightarrow> Inl e
      | Inr path \<Rightarrow>
          (case py_get misconfiguration ''suggested_value'' of
             Inl e \<Rightarrow> Inl e
           | Inr suggested_value \<Rightarrow>
               if \<not> truthy path \<or> \<not> truthy suggested_value
               then Inr (config, SkippedMissingFields)
               else
                 (case py_split path of
                    Inl e \<Rightarrow> Inl e
                  | Inr parts \<Rightarrow> remediate_path config parts suggested_value)))"

text \<open>
  The whole function: \<^verbatim>\<open>except Exception\<close> (lines 120 to 123) logs the error and
  returns \<^verbatim>\<open>config\<close>, which no statement before the raise has changed.
\<close>

definition remediate_misconfiguration :: "pyval \<Rightarrow> pyval \<Rightarrow> pyval \<times> outcome" where
  "remediate_misconfiguration config misconfiguration =
     (case remediate_body config misconfiguration of
        Inl e \<Rightarrow> (config, ErrorLogged e)
      | Inr r \<Rightarrow> r)"

section \<open>The remediation pass of main\<close>

text \<open>The \<^verbatim>\<open>for\<close> loop of lines 181 and 182, with the report of each call collected.\<close>

fun remediate_loop :: "pyval \<Rightarrow> pyval list \<Rightarrow> pyval \<times> outcome list" where
  "remediate_loop config [] = (config, [])"
| "remediate_loop config (m # ms) =
     (case remediate_misconfiguration config m of
        (config1, out) \<Rightarrow>
          (case remediate_loop config1 ms of
             (config2, outs) \<Rightarrow> (config2, out # outs)))"

text \<open>Lines 177 to 182: an empty list is logged and nothing is called.\<close>

definition apply_findings :: "pyval \<Rightarrow> pyval list \<Rightarrow> pyval \<times> outcome list" where
  "apply_findings config misconfigurations =
     (if misconfigurations = [] then (config, [])
      else remediate_loop config misconfigurations)"

section \<open>load\_config\<close>

text \<open>
  The two parsers are libraries outside the repository and are parameters of the model.
  A parser returns a value, rejects the text with its own error (\<^verbatim>\<open>yaml.YAMLError\<close>,
  \<^verbatim>\<open>json.JSONDecodeError\<close>), or fails with any other exception.
\<close>

datatype parse_result = Parsed pyval | Rejected | Crashed

datatype format_tag = YAML | JSON

text \<open>
  \<open>UnsupportedFormat\<close> is the \<^verbatim>\<open>ValueError\<close> of line 42 (re-raised by line 46 with the
  same message inside), \<open>NotFound\<close> the \<^verbatim>\<open>FileNotFoundError\<close> of line 44, and
  \<open>LoadFailed\<close> any other exception wrapped by line 46.
\<close>

datatype load_error = UnsupportedFormat | NotFound | LoadFailed

definition load_config ::
  "(string \<Rightarrow> parse_result) \<Rightarrow> (string \<Rightarrow> parse_result) \<Rightarrow> string option
     \<Rightarrow> load_error + (pyval \<times> format_tag)" where
  "load_config yaml_safe_load json_load file =
     (case file of
        None \<Rightarrow> Inl NotFound
      | Some text \<Rightarrow>
          (case yaml_safe_load text of
             Parsed config \<Rightarrow> Inr (config, YAML)
           | Crashed \<Rightarrow> Inl LoadFailed
           | Rejected \<Rightarrow>
               (case json_load text of
                  Parsed config \<Rightarrow> Inr (config, JSON)
                | Rejected \<Rightarrow> Inl UnsupportedFormat
                | Crashed \<Rightarrow> Inl LoadFailed)))"

section \<open>Reading a document along a path\<close>

text \<open>
  The value found by following the keys of a path through dicts, used to state what a
  call changes and what it leaves alone.
\<close>

fun lookup_path :: "pyval \<Rightarrow> string list \<Rightarrow> pyval option" where
  "lookup_path c [] = Some c"
| "lookup_path (PDict kvs) (p # ps) =
     (case map_of kvs p of None \<Rightarrow> None | Some child \<Rightarrow> lookup_path child ps)"
| "lookup_path c (p # ps) = None"

fun is_dict :: "pyval \<Rightarrow> bool" where
  "is_dict (PDict kvs) = True"
| "is_dict c = False"

fun keys_of :: "pyval \<Rightarrow> string list" where
  "keys_of (PDict kvs) = map fst kvs"
| "keys_of c = []"

section \<open>The store: objects and references\<close>

text \<open>
  Python values are objects, and a list or a dict holds references to its elements.
  The assignment of line 114 changes one dict object in place, and what it stores is the
  finding's own \<^verbatim>\<open>suggested_value\<close> object. Where a dict can be reached in two ways,
  the tree of the sections above cannot show this: \<^verbatim>\<open>yaml.safe_load\<close> returns one dict
  for an anchor and its aliases, and a dict stored by an earlier finding is still the
  value of that finding. This section models the same lines on a store, a map from
  addresses to objects in which lists and dicts hold addresses; \<^verbatim>\<open>config\<close> and
  \<^verbatim>\<open>misconfiguration\<close> are addresses. Every address holds an object (an address that was
  never allocated holds \<^verbatim>\<open>None\<close>), and the source allocates none.
\<close>

type_synonym addr = nat

datatype pyobj =
    ONone
  | OBool bool
  | OInt int
  | OFloat real
  | OStr string
  | OList "addr list"
  | ODict "(string \<times> addr) list"

type_synonym store = "addr \<Rightarrow> pyobj"

text \<open>The primitives of the source on objects, as on values above.\<close>

fun obj_truthy :: "pyobj \<Rightarrow> bool" where
  "obj_truthy ONone = False"
| "obj_truthy (OBool b) = b"
| "obj_truthy (OInt i) = (i \<noteq> 0)"
| "obj_truthy (OFloat r) = (r \<noteq> 0)"
| "obj_truthy (OStr s) = (s \<noteq> [])"
| "obj_truthy (OList xs) = (xs \<noteq> [])"
| "obj_truthy (ODict kas) = (kas \<noteq> [])"

text \<open>
  \<^verbatim>\<open>x.get(k)\<close>: the object bound to the key, or \<open>None\<close> for the \<^verbatim>\<open>None\<close> that a missing
  key gives.
\<close>

fun obj_get :: "pyobj \<Rightarrow> string \<Rightarrow> pyerror + addr option" where
  "obj_get (ODict kas) k = Inr (map_of kas k)"
| "obj_get _ k = Inl AttributeError"

text \<open>\<^verbatim>\<open>k in x\<close>; the element test of a list compares \<open>k\<close> with the objects referred to.\<close>

fun obj_contains :: "store \<Rightarrow> pyobj \<Rightarrow> string \<Rightarrow> pyerror + bool" where
  "obj_contains h (ODict kas) k = Inr (k \<in> set (map fst kas))"
| "obj_contains h (OStr s) k = Inr (substring_of k s)"
| "obj_contains h (OList xs) k = Inr (\<exists>a \<in> set xs. h a = OStr k)"
| "obj_contains h _ k = Inl TypeError"

fun obj_getitem :: "pyobj \<Rightarrow> string \<Rightarrow> pyerror + addr" where
  "obj_getitem (ODict kas) k = (case map_of kas k of None \<Rightarrow> Inl KeyError | Some a \<Rightarrow> Inr a)"
| "obj_getitem _ k = Inl TypeError"

text \<open>\<^verbatim>\<open>x[k] = v\<close>: the dict with the key bound to the object \<open>v\<close> refers to.\<close>

fun obj_setitem :: "pyobj \<Rightarrow> string \<Rightarrow> addr \<Rightarrow> pyerror + pyobj" where
  "obj_setitem (ODict kas) k a = Inr (ODict (AList.update k a kas))"
| "obj_setitem _ k a = Inl TypeError"

text \<open>The loop of lines 103 to 108: \<^verbatim>\<open>current\<close> is a reference into the document.\<close>

fun store_descend :: "store \<Rightarrow> addr \<Rightarrow> string list \<Rightarrow> pyerror + addr option" where
  "store_descend h current [] = Inr (Some current)"
| "store_descend h current (p # ps) =
     (case obj_contains h (h current) p of
        Inl e \<Rightarrow> Inl e
      | Inr False \<Rightarrow> Inr None
      | Inr True \<Rightarrow>
          (case obj_getitem (h current) p of
             Inl e \<Rightarrow> Inl e
           | Inr child \<Rightarrow> store_descend h child ps))"

text \<open>
  The report of one call, with the objects the log line of line 113 shows: the one the
  key was bound to and the one it is bound to now.
\<close>

datatype store_outcome =
    AppliedAt addr addr
  | MissingFieldsAt
  | PathNotFoundAt
  | ErrorAt pyerror

text \<open>
  Lines 101 to 117. The assignment of line 114 puts the changed dict at the address of
  \<^verbatim>\<open>current\<close>: every reference to that dict sees the new binding, and the key is bound
  to the \<^verbatim>\<open>suggested_value\<close> object itself.
\<close>

definition store_remediate_path ::
  "store \<Rightarrow> addr \<Rightarrow> string list \<Rightarrow> addr \<Rightarrow> pyerror + (store \<times> store_outcome)" where
  "store_remediate_path h config parts suggested_value =
     (case store_descend h config (butlast parts) of
        Inl e \<Rightarrow> Inl e
      | Inr None \<Rightarrow> Inr (h, PathNotFoundAt)
      | Inr (Some current) \<Rightarrow>
          (case obj_contains h (h current) (last parts) of
             Inl e \<Rightarrow> Inl e
           | Inr False \<Rightarrow> Inr (h, PathNotFoundAt)
           | Inr True \<Rightarrow>
               (case obj_getitem (h current) (last parts) of
                  Inl e \<Rightarrow> Inl e
                | Inr old_value \<Rightarrow>
                    (case obj_setitem (h current) (last parts) suggested_value of
                       Inl e \<Rightarrow> Inl e
                     | Inr d \<Rightarrow> Inr (h(current := d), AppliedAt old_value suggested_value)))))"

text \<open>
  Lines 92 to 117. A field that \<^verbatim>\<open>get\<close> does not find is \<^verbatim>\<open>None\<close>, which \<^verbatim>\<open>not\<close> takes
  as false; \<^verbatim>\<open>split\<close> exists on strings only.
\<close>

definition store_remediate_body ::
  "store \<Rightarrow> addr \<Rightarrow> addr \<Rightarrow> pyerror + (store \<times> store_outcome)" where
  "store_remediate_body h config misconfiguration =
     (case obj_get (h misconfiguration) ''path'' of
        Inl e \<Rightarrow> Inl e
      | Inr path \<Rightarrow>
          (case obj_get (h misconfiguration) ''suggested_value'' of
             Inl e \<Rightarrow> Inl e
           | Inr suggested_value \<Rightarrow>
               (case (path, suggested_value) of
                  (Some p, Some v) \<Rightarrow>
                    if \<not> obj_truthy (h p) \<or> \<not> obj_truthy (h v)
                    then Inr (h, MissingFieldsAt)
                    else
                      (case h p of
                         OStr s \<Rightarrow> store_remediate_path h config (split_dot s) v
                       | _ \<Rightarrow> Inl AttributeError)
                | _ \<Rightarrow> Inr (h, MissingFieldsAt))))"

definition store_remediate_misconfiguration ::
  "store \<Rightarrow> addr \<Rightarrow> addr \<Rightarrow> store \<times> store_outcome" where
  "store_remediate_misconfiguration h config misconfiguration =
     (case store_remediate_body h config misconfiguration of
        Inl e \<Rightarrow> (h, ErrorAt e)
      | Inr r \<Rightarrow> r)"

text \<open>The loop of lines 181 and 182 on the store.\<close>

fun store_remediate_loop :: "store \<Rightarrow> addr \<Rightarrow> addr list \<Rightarrow> store \<times> store_outcome list" where
  "store_remediate_loop h config [] = (h, [])"
| "store_remediate_loop h config (m # ms) =
     (case store_remediate_misconfiguration h config m of
        (h1, out) \<Rightarrow>
          (case store_remediate_loop h1 config ms of
             (h2, outs) \<Rightarrow> (h2, out # outs)))"

text \<open>Lines 177 to 182 on the store.\<close>

definition store_apply_findings :: "store \<Rightarrow> addr \<Rightarrow> addr list \<Rightarrow> store \<times> store_outcome list" where
  "store_apply_findings h config misconfigurations =
     (if misconfigurations = [] then (h, [])
      else store_remediate_loop h config misconfigurations)"

text \<open>
  The object found by following the keys of a path through dicts, and the bindings
  (dict object, key) that the walk reads on its way.
\<close>

fun store_lookup :: "store \<Rightarrow> addr \<Rightarrow> string list \<Rightarrow> addr option" where
  "store_lookup h a [] = Some a"
| "store_lookup h a (p # ps) =
     (case h a of
        ODict kas \<Rightarrow> (case map_of kas p of None \<Rightarrow> None | Some child \<Rightarrow> store_lookup h child ps)
      | _ \<Rightarrow> None)"

fun store_edges :: "store \<Rightarrow> addr \<Rightarrow> string list \<Rightarrow> (addr \<times> string) list" where
  "store_edges h a [] = []"
| "store_edges h a (p # ps) =
     (a, p) #
     (case h a of
        ODict kas \<Rightarrow> (case map_of kas p of None \<Rightarrow> [] | Some child \<Rightarrow> store_edges h child ps)
      | _ \<Rightarrow> [])"

section \<open>Trees held in the store\<close>

text \<open>
  \<open>repr h a t\<close>: the object at address \<open>a\<close>, read with everything it refers to, is the
  tree \<open>t\<close>. \<open>cells h a t\<close> lists the list and dict objects met on the way, in the
  order of the reading; when this list has no repetition, no list or dict of the tree is
  reached twice. Scalars are left out: Python shares \<^verbatim>\<open>None\<close>, the booleans and small
  numbers between all their uses, and the source changes dicts only.
\<close>

fun repr :: "store \<Rightarrow> addr \<Rightarrow> pyval \<Rightarrow> bool"
  and repr_items :: "store \<Rightarrow> addr list \<Rightarrow> pyval list \<Rightarrow> bool"
  and repr_entries :: "store \<Rightarrow> (string \<times> addr) list \<Rightarrow> (string \<times> pyval) list \<Rightarrow> bool" where
  "repr h a PNone = (h a = ONone)"
| "repr h a (PBool b) = (h a = OBool b)"
| "repr h a (PInt i) = (h a = OInt i)"
| "repr h a (PFloat r) = (h a = OFloat r)"
| "repr h a (PStr s) = (h a = OStr s)"
| "repr h a (PList ts) = (case h a of OList xs \<Rightarrow> repr_items h xs ts | _ \<Rightarrow> False)"
| "repr h a (PDict kvs) = (case h a of ODict kas \<Rightarrow> repr_entries h kas kvs | _ \<Rightarrow> False)"
| "repr_items h xs [] = (xs = [])"
| "repr_items h xs (t # ts) =
     (case xs of [] \<Rightarrow> False | x # xs' \<Rightarrow> repr h x t \<and> repr_items h xs' ts)"
| "repr_entries h kas [] = (kas = [])"
| "repr_entries h kas ((k, t) # kvs) =
     (case kas of [] \<Rightarrow> False
      | (k', a) # kas' \<Rightarrow> k' = k \<and> repr h a t \<and> repr_entries h kas' kvs)"

fun cells :: "store \<Rightarrow> addr \<Rightarrow> pyval \<Rightarrow> addr list"
  and cells_items :: "store \<Rightarrow> addr list \<Rightarrow> pyval list \<Rightarrow> addr list"
  and cells_entries :: "store \<Rightarrow> (string \<times> addr) list \<Rightarrow> (string \<times> pyval) list \<Rightarrow> addr list" where
  "cells h a PNone = []"
| "cells h a (PBool b) = []"
| "cells h a (PInt i) = []"
| "cells h a (PFloat r) = []"
| "cells h a (PStr s) = []"
| "cells h a (PList ts) = a # (case h a of OList xs \<Rightarrow> cells_items h xs ts | _ \<Rightarrow> [])"
| "cells h a (PDict kvs) = a # (case h a of ODict kas \<Rightarrow> cells_entries h kas kvs | _ \<Rightarrow> [])"
| "cells_items h xs [] = []"
| "cells_items h xs (t # ts) =
     (case xs of [] \<Rightarrow> [] | x # xs' \<Rightarrow> cells h x t @ cells_items h xs' ts)"
| "cells_entries h kas [] = []"
| "cells_entries h kas ((k, t) # kvs) =
     (case kas of [] \<Rightarrow> []
      | (k', a) # kas' \<Rightarrow> cells h a t @ cells_entries h kas' kvs)"


text \<open>
  A report of the store shows an outcome on trees when, in the store in which the log
  line is written, its two objects are the two values. The reports of a pass show a list
  of outcomes when each does, in the store left by the findings before it.
\<close>

fun reports :: "store \<Rightarrow> store_outcome \<Rightarrow> outcome \<Rightarrow> bool" where
  "reports h (AppliedAt a b) (Applied old new) = (repr h a old \<and> repr h b new)"
| "reports h MissingFieldsAt SkippedMissingFields = True"
| "reports h PathNotFoundAt SkippedPathNotFound = True"
| "reports h (ErrorAt e) (ErrorLogged e') = (e = e')"
| "reports h out' out = False"

fun reports_all :: "store \<Rightarrow> addr \<Rightarrow> addr list \<Rightarrow> outcome list \<Rightarrow> bool" where
  "reports_all h config [] outs = (outs = [])"
| "reports_all h config (m # ms) outs =
     (case outs of
        [] \<Rightarrow> False
      | out # outs' \<Rightarrow>
          (case store_remediate_misconfiguration h config m of
             (h1, out') \<Rightarrow> reports h out' out \<and> reports_all h1 config ms outs'))"

section \<open>Notions used to state and prove idempotence\<close>

text \<open>
  The effect of one finding on the document, as a function on trees: the value at a path
  is replaced when the path resolves, and nothing happens otherwise. The empty path
  stands for the whole tree, so that a write below a written value is a write into that
  value.
\<close>

fun write_at :: "pyval \<Rightarrow> string list \<Rightarrow> pyval \<Rightarrow> pyval" where
  "write_at c [] v = v"
| "write_at (PDict kvs) (k # ps) v =
     (case map_of kvs k of
        None \<Rightarrow> PDict kvs
      | Some child \<Rightarrow> PDict (AList.update k (write_at child ps v) kvs))"
| "write_at c (k # ps) v = c"

text \<open>
  The path and value of a finding that passes the checks of lines 92 to 100: both fields
  read, the path a non-empty string, the value true for Python.
\<close>

definition target :: "pyval \<Rightarrow> (string list \<times> pyval) option" where
  "target m =
     (case (py_get m ''path'', py_get m ''suggested_value'') of
        (Inr (PStr s), Inr v) \<Rightarrow> if s \<noteq> [] \<and> truthy v then Some (split_dot s, v) else None
      | _ \<Rightarrow> None)"

fun run_writes :: "pyval \<Rightarrow> (string list \<times> pyval) list \<Rightarrow> pyval" where
  "run_writes c [] = c"
| "run_writes c ((p, v) # ws) = run_writes (write_at c p v) ws"

text \<open>How the walk of lines 101 to 117 ends, as an outcome.\<close>

definition verdict :: "pyval \<Rightarrow> string list \<Rightarrow> pyval \<Rightarrow> outcome" where
  "verdict c ps v =
     (case remediate_path c ps v of Inl e \<Rightarrow> ErrorLogged e | Inr (c', out) \<Rightarrow> out)"

text \<open>
  \<open>perturbed W s t\<close>: the tree \<open>t\<close> is \<open>s\<close> after some writes at paths of \<open>W\<close>, of
  any values.
\<close>

inductive perturbed :: "string list set \<Rightarrow> pyval \<Rightarrow> pyval \<Rightarrow> bool" for W s where
  same: "perturbed W s s"
| touch: "perturbed W s t \<Longrightarrow> q \<in> W \<Longrightarrow> perturbed W s (write_at t q w)"

text \<open>What an outcome becomes when the same finding is applied again.\<close>

fun settled :: "outcome \<Rightarrow> outcome" where
  "settled (Applied old new) = Applied new new"
| "settled out = out"

text \<open>
  Two findings are apart when they do not both pass the field check, or when neither of
  their paths is a prefix of the other (equal paths included). A list is independent
  when its findings are pairwise apart.
\<close>

definition apart :: "pyval \<Rightarrow> pyval \<Rightarrow> bool" where
  "apart m m' =
     (case (target m, target m') of
        (Some (p, v), Some (q, w)) \<Rightarrow> \<not> prefix p q \<and> \<not> prefix q p
      | _ \<Rightarrow> True)"

fun independent :: "pyval list \<Rightarrow> bool" where
  "independent [] = True"
| "independent (m # F) = ((\<forall>m' \<in> set F. apart m m') \<and> independent F)"

section \<open>Documents and findings of the scenarios\<close>

definition scenario_config :: pyval where
  "scenario_config =
     PDict [(''security'', PDict [(''password_policy'', PDict [(''minimum_length'', PInt 4)])])]"

definition finding :: "string \<Rightarrow> pyval \<Rightarrow> pyval" where
  "finding path suggested_value =
     PDict [(''path'', PStr path), (''suggested_value'', suggested_value)]"

text \<open>
  The scenario of the specification on a store: the document at address 0, the finding
  at address 10.
\<close>

definition scenario_store :: store where
  "scenario_store =
     (\<lambda>a. ONone)
       (0 := ODict [(''security'', 1)],
        1 := ODict [(''password_policy'', 2)],
        2 := ODict [(''minimum_length'', 3)],
        3 := OInt 4,
        10 := ODict [(''path'', 11), (''suggested_value'', 12)],
        11 := OStr ''security.password_policy.minimum_length'',
        12 := OInt 12)"

text \<open>
  The YAML document \<^verbatim>\<open>base: &b {x: 1}\<close>, \<^verbatim>\<open>other: *b\<close> as \<^verbatim>\<open>yaml.safe_load\<close> returns it:
  both keys refer to the dict at address 1. The finding at address 10 sets
  \<^verbatim>\<open>base.x\<close> to 2.
\<close>

definition alias_store :: store where
  "alias_store =
     (\<lambda>a. ONone)
       (0 := ODict [(''base'', 1), (''other'', 1)],
        1 := ODict [(''x'', 2)],
        2 := OInt 1,
        10 := ODict [(''path'', 11), (''suggested_value'', 12)],
        11 := OStr ''base.x'',
        12 := OInt 2)"

text \<open>
  The document \<^verbatim>\<open>{"a": {"c": 0}}\<close> at address 0 and two findings: the one at address 10
  sets \<^verbatim>\<open>a.c\<close> to 6, the one at address 20 sets \<^verbatim>\<open>a\<close> to the dict \<^verbatim>\<open>{"c": 5}\<close>.
\<close>

definition nested_store :: store where
  "nested_store =
     (\<lambda>a. ONone)
       (0 := ODict [(''a'', 1)],
        1 := ODict [(''c'', 2)],
        2 := OInt 0,
        10 := ODict [(''path'', 11), (''suggested_value'', 12)],
        11 := OStr ''a.c'',
        12 := OInt 6,
        20 := ODict [(''path'', 21), (''suggested_value'', 22)],
        21 := OStr ''a'',
        22 := ODict [(''c'', 23)],
        23 := OInt 5)"

text \<open>
  The YAML document \<^verbatim>\<open>a: &d {x: 0}\<close>, \<^verbatim>\<open>b: *d\<close> at address 0, the findings that set
  \<^verbatim>\<open>a.x\<close> to 5 and \<^verbatim>\<open>b.x\<close> to 7 at addresses 10 and 20, and a second copy of the two
  findings at addresses 30 and 40.
\<close>

definition shared_store :: store where
  "shared_store =
     (\<lambda>a. ONone)
       (0 := ODict [(''a'', 1), (''b'', 1)],
        1 := ODict [(''x'', 2)],
        2 := OInt 0,
        10 := ODict [(''path'', 11), (''suggested_value'', 12)],
        11 := OStr ''a.x'',
        12 := OInt 5,
        20 := ODict [(''path'', 21), (''suggested_value'', 22)],
        21 := OStr ''b.x'',
        22 := OInt 7,
        30 := ODict [(''path'', 31), (''suggested_value'', 32)],
        31 := OStr ''a.x'',
        32 := OInt 5,
        40 := ODict [(''path'', 41), (''suggested_value'', 42)],
        41 := OStr ''b.x'',
        42 := OInt 7)"

text \<open>
  A document at address 0, a list of two findings at addresses 10 and 20, and a second
  copy of that list at addresses 30 and 40, as a second parse of the report gives it.
\<close>

definition copies_store :: store where
  "copies_store =
     (\<lambda>a. ONone)
       (0 := ODict [(''a'', 1), (''b'', 2)],
        1 := OInt 1,
        2 := ODict [(''c'', 3)],
        3 := OInt 2,
        10 := ODict [(''path'', 11), (''suggested_value'', 12)],
        11 := OStr ''a'',
        12 := OInt 7,
        20 := ODict [(''path'', 21), (''suggested_value'', 22)],
        21 := OStr ''b.c'',
        22 := ODict [(''d'', 23)],
        23 := OInt 8,
        30 := ODict [(''path'', 31), (''suggested_value'', 32)],
        31 := OStr ''a'',
        32 := OInt 7,
        40 := ODict [(''path'', 41), (''suggested_value'', 42)],
        41 := OStr ''b.c'',
        42 := ODict [(''d'', 43)],
        43 := OInt 8)"

lemmas run_defs =
  apply_findings_def remediate_misconfiguration_def remediate_body_def remediate_path_def
  split_dot_def scenario_config_def finding_def

lemmas store_defs =
  store_remediate_misconfiguration_def store_remediate_body_def store_remediate_path_def
  split_dot_def

section \<open>Basic facts\<close>

lemma split_from_not_Nil: "split_from cur s \<noteq> []"
  by (induction s arbitrary: cur) auto

lemma split_dot_not_Nil: "split_dot s \<noteq> []"
  by (simp add: split_dot_def split_from_not_Nil)

subsection \<open>The walk and the path lookup\<close>

lemma mem_keys_iff: "k \<in> fst ` set kvs \<longleftrightarrow> map_of kvs k \<noteq> None"
  by (simp add: map_of_eq_None_iff)

lemma descend_dict:
  "descend (PDict kvs) (p # ps) =
     (case map_of kvs p of None \<Rightarrow> Inr None | Some child \<Rightarrow> descend child ps)"
  by (auto simp: mem_keys_iff split: option.splits bool.splits)

lemma descend_not_dict:
  "\<not> is_dict c \<Longrightarrow>
   descend c (p # ps) = (if py_contains c p = Inr False then Inr None else Inl TypeError)"
  by (cases c) (auto split: sum.splits bool.splits)

lemma descend_append:
  "descend c (xs @ ys) =
     (case descend c xs of
        Inl e \<Rightarrow> Inl e
      | Inr None \<Rightarrow> Inr None
      | Inr (Some n) \<Rightarrow> descend n ys)"
proof (induction xs arbitrary: c)
  case Nil
  show ?case by simp
next
  case (Cons x xs)
  show ?case
  proof (cases "is_dict c")
    case True
    then obtain kvs where c: "c = PDict kvs" by (cases c) auto
    show ?thesis unfolding c append_Cons descend_dict using Cons.IH
      by (simp split: option.splits)
  next
    case False
    show ?thesis unfolding append_Cons descend_not_dict [OF False] by simp
  qed
qed

lemma lookup_path_append:
  "lookup_path c (xs @ ys) =
     (case lookup_path c xs of None \<Rightarrow> None | Some n \<Rightarrow> lookup_path n ys)"
proof (induction xs arbitrary: c)
  case Nil
  show ?case by simp
next
  case (Cons x xs)
  show ?case by (cases c) (simp_all add: Cons.IH split: option.splits)
qed

lemma lookup_path_not_dict: "\<not> is_dict c \<Longrightarrow> lookup_path c (p # ps) = None"
  by (cases c) auto

lemma descend_lookup: "descend c ps = Inr (Some n) \<longleftrightarrow> lookup_path c ps = Some n"
proof (induction ps arbitrary: c)
  case Nil
  show ?case by auto
next
  case (Cons p ps)
  show ?case
  proof (cases "is_dict c")
    case True
    then obtain kvs where c: "c = PDict kvs" by (cases c) auto
    show ?thesis unfolding c descend_dict using Cons.IH by (simp split: option.splits)
  next
    case False
    show ?thesis unfolding descend_not_dict [OF False] lookup_path_not_dict [OF False]
      by simp
  qed
qed

lemma lookup_path_snoc:
  "lookup_path c (ps @ [k]) = Some v \<longleftrightarrow>
     (\<exists>kvs. lookup_path c ps = Some (PDict kvs) \<and> map_of kvs k = Some v)"
proof -
  have "\<And>n. lookup_path n [k] = Some v \<longleftrightarrow> (\<exists>kvs. n = PDict kvs \<and> map_of kvs k = Some v)"
    subgoal for n by (cases n) (auto split: option.splits)
    done
  then show ?thesis by (auto simp: lookup_path_append split: option.splits)
qed

lemma remediate_path_resolves:
  assumes "parts \<noteq> []" and "lookup_path config parts = Some old"
  shows "remediate_path config parts v = Inr (store_at config parts v, Applied old v)"
proof -
  have parts: "parts = butlast parts @ [last parts]" using assms(1) by simp
  with assms(2) have "lookup_path config (butlast parts @ [last parts]) = Some old" by simp
  then obtain kvs where n: "lookup_path config (butlast parts) = Some (PDict kvs)"
    and k: "map_of kvs (last parts) = Some old"
    unfolding lookup_path_snoc by blast
  from n have d: "descend config (butlast parts) = Inr (Some (PDict kvs))"
    by (simp add: descend_lookup)
  from k have "last parts \<in> fst ` set kvs" by (simp add: mem_keys_iff)
  with d k show ?thesis by (simp add: remediate_path_def)
qed

lemma getitem_Inr: "py_getitem c k = Inr v \<longleftrightarrow> (\<exists>kvs. c = PDict kvs \<and> map_of kvs k = Some v)"
  by (cases c) (auto split: option.splits)

lemma remediate_path_cases:
  "(\<exists>e. remediate_path config parts v = Inl e) \<or>
   remediate_path config parts v = Inr (config, SkippedPathNotFound) \<or>
   (\<exists>old. remediate_path config parts v = Inr (store_at config parts v, Applied old v) \<and>
      lookup_path config (butlast parts @ [last parts]) = Some old)"
proof (cases "descend config (butlast parts)")
  case (Inl e)
  then show ?thesis by (simp add: remediate_path_def)
next
  case (Inr r)
  show ?thesis
  proof (cases r)
    case None
    with Inr show ?thesis by (simp add: remediate_path_def)
  next
    case (Some current)
    with Inr have d: "descend config (butlast parts) = Inr (Some current)" by simp
    then have l: "lookup_path config (butlast parts) = Some current"
      by (simp add: descend_lookup)
    show ?thesis
    proof (cases "py_contains current (last parts)")
      case (Inl e)
      with d show ?thesis by (simp add: remediate_path_def)
    next
      case c: (Inr b)
      show ?thesis
      proof (cases b)
        case False
        with c d show ?thesis by (simp add: remediate_path_def)
      next
        case True
        show ?thesis
        proof (cases "py_getitem current (last parts)")
          case (Inl e)
          with c d True show ?thesis by (simp add: remediate_path_def)
        next
          case g: (Inr old)
          then obtain kvs where cur: "current = PDict kvs" and k: "map_of kvs (last parts) = Some old"
            unfolding getitem_Inr by blast
          from l cur k have "lookup_path config (butlast parts @ [last parts]) = Some old"
            unfolding lookup_path_snoc by simp
          moreover from c d True g cur
          have "remediate_path config parts v = Inr (store_at config parts v, Applied old v)"
            by (simp add: remediate_path_def)
          ultimately show ?thesis by blast
        qed
      qed
    qed
  qed
qed

lemma descend_error: "descend c ps = Inl e \<Longrightarrow> e = TypeError"
proof (induction ps arbitrary: c)
  case Nil
  then show ?case by simp
next
  case (Cons p ps)
  show ?case
  proof (cases "is_dict c")
    case True
    then obtain kvs where c: "c = PDict kvs" by (cases c) auto
    from Cons.prems show ?thesis unfolding c descend_dict using Cons.IH
      by (auto split: option.splits)
  next
    case False
    from Cons.prems show ?thesis unfolding descend_not_dict [OF False]
      by (simp split: if_splits)
  qed
qed

text \<open>
  A walk that reaches a node where the next segment is not a key of a dict stops there:
  with the path-not-found warning when \<^verbatim>\<open>in\<close> answers false, with a \<^verbatim>\<open>TypeError\<close> otherwise.
\<close>

lemma remediate_path_stuck:
  assumes parts: "parts = pre @ seg # rest"
    and node: "lookup_path config pre = Some node"
    and stuck: "lookup_path node [seg] = None"
  shows "remediate_path config parts v =
           (if py_contains node seg = Inr False then Inr (config, SkippedPathNotFound)
            else Inl TypeError)"
proof -
  have d: "descend config pre = Inr (Some node)" using node by (simp add: descend_lookup)
  show ?thesis
  proof (cases rest rule: rev_cases)
    case Nil
    then have bl: "butlast parts = pre" "last parts = seg" using parts by simp_all
    show ?thesis
    proof (cases "is_dict node")
      case True
      then obtain kvs where n: "node = PDict kvs" by (cases node) auto
      with stuck have "map_of kvs seg = None" by (simp split: option.splits)
      then have "seg \<notin> fst ` set kvs" by (simp add: mem_keys_iff)
      then show ?thesis using d bl n by (simp add: remediate_path_def)
    next
      case False
      then show ?thesis using d bl
        by (cases node) (auto simp: remediate_path_def split: bool.splits)
    qed
  next
    case (snoc rest' l)
    then have bl: "butlast parts = pre @ seg # rest'" using parts
      by (simp add: butlast_append)
    have "descend node (seg # rest') =
            (if py_contains node seg = Inr False then Inr None else Inl TypeError)"
    proof (cases "is_dict node")
      case True
      then obtain kvs where n: "node = PDict kvs" by (cases node) auto
      with stuck have "map_of kvs seg = None" by (simp split: option.splits)
      then show ?thesis unfolding n descend_dict by (simp add: mem_keys_iff)
    next
      case False
      then show ?thesis by (rule descend_not_dict)
    qed
    then show ?thesis unfolding remediate_path_def bl descend_append d by simp
  qed
qed

subsection \<open>What the assignment changes\<close>

lemma lookup_path_ConsD:
  "lookup_path c (p # ps) = Some v \<Longrightarrow>
   \<exists>kvs child. c = PDict kvs \<and> map_of kvs p = Some child \<and> lookup_path child ps = Some v"
  by (cases c) (auto split: option.splits)

lemma store_at_Cons:
  "map_of kvs p = Some child \<Longrightarrow> ps \<noteq> [] \<Longrightarrow>
   store_at (PDict kvs) (p # ps) v = PDict (AList.update p (store_at child ps v) kvs)"
  by (cases ps) simp_all

lemma store_at_same:
  "lookup_path c ps = Some old \<Longrightarrow> ps \<noteq> [] \<Longrightarrow> lookup_path (store_at c ps v) ps = Some v"
proof (induction ps arbitrary: c)
  case Nil
  then show ?case by simp
next
  case (Cons p ps)
  from lookup_path_ConsD [OF Cons.prems(1)] obtain kvs child where
    c: "c = PDict kvs" and p: "map_of kvs p = Some child" and ch: "lookup_path child ps = Some old"
    by blast
  show ?case
  proof (cases "ps = []")
    case True
    then show ?thesis by (simp add: c update_conv')
  next
    case False
    with Cons.IH [OF ch] have "lookup_path (store_at child ps v) ps = Some v" by simp
    then show ?thesis by (simp add: c store_at_Cons [OF p False] update_conv')
  qed
qed

lemma store_at_other:
  "lookup_path c ps \<noteq> None \<Longrightarrow> \<not> prefix ps qs \<Longrightarrow> \<not> prefix qs ps \<Longrightarrow>
   lookup_path (store_at c ps v) qs = lookup_path c qs"
proof (induction ps arbitrary: c qs)
  case Nil
  then show ?case by simp
next
  case (Cons p ps)
  from Cons.prems(1) obtain w where "lookup_path c (p # ps) = Some w" by blast
  from lookup_path_ConsD [OF this] obtain kvs child where
    c: "c = PDict kvs" and p: "map_of kvs p = Some child" and ch: "lookup_path child ps = Some w"
    by blast
  from Cons.prems(3) obtain q qs' where qs: "qs = q # qs'" by (cases qs) auto
  show ?case
  proof (cases "q = p")
    case False
    show ?thesis
    proof (cases "ps = []")
      case True
      with False show ?thesis by (simp add: c qs update_conv')
    next
      case ne: False
      from False show ?thesis by (simp add: c qs store_at_Cons [OF p ne] update_conv')
    qed
  next
    case True
    with Cons.prems(2,3) qs have np: "\<not> prefix ps qs'" "\<not> prefix qs' ps" by simp_all
    then have ne: "ps \<noteq> []" by auto
    from ch have "lookup_path child ps \<noteq> None" by simp
    from Cons.IH [OF this np] show ?thesis
      by (simp add: c qs True p store_at_Cons [OF p ne] update_conv')
  qed
qed

lemma keys_store_at:
  assumes "lookup_path c ps \<noteq> None" and "ps \<noteq> []"
  shows "is_dict (store_at c ps v) \<and> keys_of (store_at c ps v) = keys_of c \<and> is_dict c"
proof -
  from assms obtain p ps' where ps: "ps = p # ps'" by (cases ps) auto
  from assms(1) obtain w where "lookup_path c (p # ps') = Some w" unfolding ps by blast
  from lookup_path_ConsD [OF this] obtain kvs child where
    c: "c = PDict kvs" and p: "map_of kvs p = Some child"
    by blast
  from p have k: "p \<in> fst ` set kvs" by (simp add: mem_keys_iff)
  show ?thesis
  proof (cases "ps' = []")
    case True
    with k show ?thesis by (simp add: c ps update_keys)
  next
    case False
    with k show ?thesis by (simp add: c ps store_at_Cons [OF p False] update_keys)
  qed
qed

lemma store_at_prefix_keys:
  "lookup_path c ps \<noteq> None \<Longrightarrow> strict_prefix qs ps \<Longrightarrow>
   \<exists>n n'. lookup_path c qs = Some n \<and> lookup_path (store_at c ps v) qs = Some n' \<and>
          is_dict n \<and> is_dict n' \<and> keys_of n' = keys_of n"
proof (induction qs arbitrary: c ps)
  case Nil
  then have "ps \<noteq> []" by auto
  with keys_store_at [OF Nil.prems(1) this, of v] show ?case by simp
next
  case (Cons q qs)
  from Cons.prems(2) obtain ps' where ps: "ps = q # ps'" and sp: "strict_prefix qs ps'"
    by (cases ps) auto
  then have ne: "ps' \<noteq> []" by auto
  from Cons.prems(1) obtain w where "lookup_path c (q # ps') = Some w" unfolding ps by blast
  from lookup_path_ConsD [OF this] obtain kvs child where
    c: "c = PDict kvs" and p: "map_of kvs q = Some child" and ch: "lookup_path child ps' = Some w"
    by blast
  from ch have "lookup_path child ps' \<noteq> None" by simp
  from Cons.IH [OF this sp] show ?case
    by (simp add: c ps p store_at_Cons [OF p ne] update_conv')
qed

subsection \<open>The checks on the fields of a finding\<close>

lemma remediate_body_fields:
  assumes "py_get m ''path'' = Inr (PStr s)" and "s \<noteq> []"
    and "py_get m ''suggested_value'' = Inr v" and "truthy v"
  shows "remediate_body config m = remediate_path config (split_dot s) v"
  using assms by (simp add: remediate_body_def)

lemma py_split_Inr: "py_split p = Inr parts \<longleftrightarrow> (\<exists>s. p = PStr s \<and> parts = split_dot s)"
  by (cases p) auto

lemma remediate_body_cases:
  "(\<exists>e. remediate_body config m = Inl e) \<or>
   remediate_body config m = Inr (config, SkippedMissingFields) \<or>
   (\<exists>s v. py_get m ''path'' = Inr (PStr s) \<and> s \<noteq> [] \<and>
      py_get m ''suggested_value'' = Inr v \<and> truthy v \<and>
      remediate_body config m = remediate_path config (split_dot s) v)"
proof (cases "py_get m ''path''")
  case (Inl e)
  then show ?thesis by (simp add: remediate_body_def)
next
  case p: (Inr path)
  show ?thesis
  proof (cases "py_get m ''suggested_value''")
    case (Inl e)
    with p show ?thesis by (simp add: remediate_body_def)
  next
    case sv: (Inr v)
    show ?thesis
    proof (cases "truthy path \<and> truthy v")
      case False
      with p sv show ?thesis by (auto simp: remediate_body_def)
    next
      case True
      show ?thesis
      proof (cases "py_split path")
        case (Inl e)
        with p sv True show ?thesis by (simp add: remediate_body_def)
      next
        case (Inr parts)
        then obtain s where s: "path = PStr s" "parts = split_dot s"
          unfolding py_split_Inr by blast
        with True have "s \<noteq> []" by simp
        with p sv True s show ?thesis
          using remediate_body_fields [of m s v config] by simp
      qed
    qed
  qed
qed


subsection \<open>The loop\<close>

lemma remediate_loop_length: "length (snd (remediate_loop config ms)) = length ms"
proof (induction ms arbitrary: config)
  case Nil
  show ?case by simp
next
  case (Cons m ms)
  obtain c1 out where r: "remediate_misconfiguration config m = (c1, out)"
    by (cases "remediate_misconfiguration config m")
  obtain c2 outs where l: "remediate_loop c1 ms = (c2, outs)"
    by (cases "remediate_loop c1 ms")
  from Cons.IH [of c1] l have "length outs = length ms" by simp
  with r l show ?case by simp
qed

lemma remediate_loop_append:
  "remediate_loop config (xs @ ys) =
     (case remediate_loop config xs of
        (c1, o1) \<Rightarrow> (case remediate_loop c1 ys of (c2, o2) \<Rightarrow> (c2, o1 @ o2)))"
  by (induction xs arbitrary: config) (auto split: prod.splits)

lemma apply_findings_loop: "apply_findings config ms = remediate_loop config ms"
  by (simp add: apply_findings_def)

lemma remediate_loop_nth:
  assumes "i < length ms"
  shows "snd (remediate_loop config ms) ! i =
         snd (remediate_misconfiguration (fst (remediate_loop config (take i ms))) (ms ! i))"
proof -
  have ms: "ms = take i ms @ (ms ! i) # drop (Suc i) ms"
    using assms by (simp add: id_take_nth_drop)
  obtain c1 o1 where l1: "remediate_loop config (take i ms) = (c1, o1)"
    by (cases "remediate_loop config (take i ms)")
  have len: "length o1 = i"
    using remediate_loop_length [of config "take i ms"] l1 assms by simp
  have "snd (remediate_loop config (take i ms @ (ms ! i) # drop (Suc i) ms)) ! i
        = snd (remediate_misconfiguration c1 (ms ! i))"
    by (simp add: remediate_loop_append l1 len nth_append split: prod.splits)
  with ms l1 show ?thesis by simp
qed

subsection \<open>Writes: absorption, merging, commutation\<close>

lemma write_at_not_dict: "\<not> is_dict c \<Longrightarrow> write_at c (k # ps) v = c"
  by (cases c) auto

lemma write_at_store:
  "ps \<noteq> [] \<Longrightarrow> write_at c ps v = (if lookup_path c ps = None then c else store_at c ps v)"
proof (induction ps arbitrary: c)
  case Nil
  then show ?case by simp
next
  case (Cons k ps)
  show ?case
  proof (cases "is_dict c")
    case False
    then show ?thesis by (simp add: write_at_not_dict lookup_path_not_dict)
  next
    case True
    then obtain kvs where c: "c = PDict kvs" by (cases c) auto
    show ?thesis
    proof (cases "map_of kvs k")
      case None
      then show ?thesis by (simp add: c)
    next
      case (Some child)
      show ?thesis
      proof (cases "ps = []")
        case True
        with Some show ?thesis by (simp add: c)
      next
        case False
        from Cons.IH [OF False, of child] Some False show ?thesis
          by (simp add: c store_at_Cons update_triv)
      qed
    qed
  qed
qed

lemma write_at_merge: "write_at (write_at s q w) (q @ r) v = write_at s q (write_at w r v)"
proof (induction q arbitrary: s)
  case Nil
  show ?case by simp
next
  case (Cons k q)
  show ?case
  proof (cases "is_dict s")
    case False
    then show ?thesis by (simp add: write_at_not_dict)
  next
    case True
    then obtain kvs where s: "s = PDict kvs" by (cases s) auto
    show ?thesis by (simp add: s Cons.IH update_conv' split: option.splits)
  qed
qed

lemma write_at_absorb: "write_at (write_at s (q @ r) v) q w = write_at s q w"
proof (induction q arbitrary: s)
  case Nil
  show ?case by simp
next
  case (Cons k q)
  show ?case
  proof (cases "is_dict s")
    case False
    then show ?thesis by (simp add: write_at_not_dict)
  next
    case True
    then obtain kvs where s: "s = PDict kvs" by (cases s) auto
    show ?thesis by (simp add: s Cons.IH update_conv' split: option.splits)
  qed
qed

lemma update_commute:
  "a \<noteq> b \<Longrightarrow> a \<in> fst ` set al \<Longrightarrow> b \<in> fst ` set al \<Longrightarrow>
   AList.update a x (AList.update b y al) = AList.update b y (AList.update a x al)"
  by (induction al) auto

lemma write_at_commute:
  "\<not> prefix p q \<Longrightarrow> \<not> prefix q p \<Longrightarrow>
   write_at (write_at s q w) p v = write_at (write_at s p v) q w"
proof (induction p arbitrary: q s)
  case Nil
  then show ?case by simp
next
  case (Cons a p)
  from Cons.prems(2) obtain b q' where q: "q = b # q'" by (cases q) auto
  show ?case
  proof (cases "is_dict s")
    case False
    then show ?thesis by (simp add: q write_at_not_dict)
  next
    case True
    then obtain kvs where s: "s = PDict kvs" by (cases s) auto
    show ?thesis
    proof (cases "a = b")
      case True
      with Cons.prems q have "\<not> prefix p q'" "\<not> prefix q' p" by simp_all
      from Cons.IH [OF this] show ?thesis
        by (simp add: s q True update_conv' split: option.splits)
    next
      case False
      show ?thesis
      proof (cases "map_of kvs a")
        case None
        with False show ?thesis by (simp add: s q update_conv' split: option.splits)
      next
        case sa: (Some ca)
        show ?thesis
        proof (cases "map_of kvs b")
          case None
          with False sa show ?thesis by (simp add: s q update_conv')
        next
          case sb: (Some cb)
          from sa sb have "a \<in> fst ` set kvs" "b \<in> fst ` set kvs"
            by (simp_all add: mem_keys_iff)
          with False sa sb show ?thesis
            by (simp add: s q update_conv' update_commute)
        qed
      qed
    qed
  qed
qed

lemma perturbed_step:
  "perturbed (insert p W) s t \<Longrightarrow> perturbed W (write_at s p v) (write_at t p v)"
proof (induction rule: perturbed.induct)
  case same
  show ?case by (rule perturbed.same)
next
  case (touch t q w)
  consider (ext) "prefix p q" | (pre) "strict_prefix q p" | (inc) "\<not> prefix p q" "\<not> prefix q p"
    by (auto simp: strict_prefix_def)
  then show ?case
  proof cases
    case ext
    then obtain r where "q = p @ r" by (auto simp: prefix_def)
    then show ?thesis using touch.IH by (simp add: write_at_absorb)
  next
    case pre
    then obtain r where r: "p = q @ r" and ne: "q \<noteq> p" by (auto simp: strict_prefix_def prefix_def)
    with touch.hyps have qW: "q \<in> W" by auto
    have "write_at (write_at t q w) p v = write_at (write_at t p v) q (write_at w r v)"
      unfolding r by (simp add: write_at_merge write_at_absorb)
    then show ?thesis using perturbed.touch [OF touch.IH qW] by simp
  next
    case inc
    then have "q \<noteq> p" by auto
    with touch.hyps have qW: "q \<in> W" by auto
    have "write_at (write_at t q w) p v = write_at (write_at t p v) q w"
      using inc by (rule write_at_commute)
    then show ?thesis using perturbed.touch [OF touch.IH qW] by simp
  qed
qed

lemma perturbed_empty: "perturbed {} s t \<Longrightarrow> t = s"
  by (induction rule: perturbed.induct) auto

lemma perturbed_washed_out:
  "perturbed (fst ` set ws) s t \<Longrightarrow> run_writes t ws = run_writes s ws"
proof (induction ws arbitrary: s t)
  case Nil
  then show ?case by (simp add: perturbed_empty)
next
  case (Cons pv ws)
  obtain p v where pv: "pv = (p, v)" by (cases pv)
  from Cons.prems have "perturbed (insert p (fst ` set ws)) s t" by (simp add: pv)
  then have "perturbed (fst ` set ws) (write_at s p v) (write_at t p v)"
    by (rule perturbed_step)
  from Cons.IH [OF this] show ?case by (simp add: pv)
qed

lemma perturbed_run:
  "perturbed W s t \<Longrightarrow> fst ` set ws \<subseteq> W \<Longrightarrow> perturbed W s (run_writes t ws)"
proof (induction ws arbitrary: t)
  case Nil
  then show ?case by simp
next
  case (Cons pv ws)
  obtain p v where pv: "pv = (p, v)" by (cases pv)
  from Cons.prems have "p \<in> W" "fst ` set ws \<subseteq> W" by (simp_all add: pv)
  with Cons.prems(1) have "perturbed W s (write_at t p v)" by (auto intro: perturbed.touch)
  from Cons.IH [OF this \<open>fst ` set ws \<subseteq> W\<close>] show ?case by (simp add: pv)
qed

lemma run_writes_idempotent: "run_writes (run_writes s ws) ws = run_writes s ws"
proof -
  have "perturbed (fst ` set ws) s (run_writes s ws)"
    by (rule perturbed_run [OF perturbed.same]) simp
  then show ?thesis by (rule perturbed_washed_out)
qed

subsection \<open>A finding as a write\<close>

lemma target_Some:
  "target m = Some (ps, v) \<longleftrightarrow>
     (\<exists>s. py_get m ''path'' = Inr (PStr s) \<and> s \<noteq> [] \<and>
          py_get m ''suggested_value'' = Inr v \<and> truthy v \<and> ps = split_dot s)"
  by (auto simp: target_def split: sum.splits pyval.splits if_splits)

lemma target_nonempty: "target m = Some (ps, v) \<Longrightarrow> ps \<noteq> []"
  by (auto simp: target_Some split_dot_not_Nil)

lemma remediate_path_doc:
  assumes "ps \<noteq> []"
  shows "(case remediate_path c ps v of Inl e \<Rightarrow> c | Inr (c', out) \<Rightarrow> c') = write_at c ps v"
proof (cases "lookup_path c ps")
  case None
  have bl: "butlast ps @ [last ps] = ps" using assms by simp
  from remediate_path_cases [of c ps v] None
  have "(\<exists>e. remediate_path c ps v = Inl e) \<or>
        remediate_path c ps v = Inr (c, SkippedPathNotFound)"
    unfolding bl by auto
  then show ?thesis using None assms by (auto simp: write_at_store)
next
  case (Some old)
  from remediate_path_resolves [OF assms Some] Some assms show ?thesis
    by (simp add: write_at_store)
qed

lemma remediate_with_target:
  assumes "target m = Some (ps, v)"
  shows "remediate_misconfiguration c m = (write_at c ps v, verdict c ps v)"
proof -
  from assms obtain s where f: "py_get m ''path'' = Inr (PStr s)" "s \<noteq> []"
      "py_get m ''suggested_value'' = Inr v" "truthy v" and ps: "ps = split_dot s"
    unfolding target_Some by blast
  have ne: "ps \<noteq> []" using assms by (rule target_nonempty)
  have b: "remediate_body c m = remediate_path c ps v"
    unfolding ps by (rule remediate_body_fields [OF f])
  show ?thesis using remediate_path_doc [OF ne, of c v]
    by (auto simp: remediate_misconfiguration_def b verdict_def split: sum.splits)
qed

lemma remediate_without_target:
  assumes "target m = None"
  shows "\<exists>out. settled out = out \<and> (\<forall>c. remediate_misconfiguration c m = (c, out))"
proof (cases "py_get m ''path''")
  case (Inl e)
  then show ?thesis by (auto simp: remediate_misconfiguration_def remediate_body_def)
next
  case p: (Inr path)
  show ?thesis
  proof (cases "py_get m ''suggested_value''")
    case (Inl e)
    with p show ?thesis by (auto simp: remediate_misconfiguration_def remediate_body_def)
  next
    case sv: (Inr v)
    show ?thesis
    proof (cases "truthy path \<and> truthy v")
      case False
      with p sv show ?thesis by (auto simp: remediate_misconfiguration_def remediate_body_def)
    next
      case True
      show ?thesis
      proof (cases "py_split path")
        case (Inl e)
        with p sv True show ?thesis
          by (auto simp: remediate_misconfiguration_def remediate_body_def)
      next
        case (Inr parts)
        then obtain s where s: "path = PStr s" unfolding py_split_Inr by blast
        with True p sv have "target m = Some (split_dot s, v)" by (simp add: target_Some)
        with assms show ?thesis by simp
      qed
    qed
  qed
qed

lemma remediate_doc:
  "fst (remediate_misconfiguration c m) =
     (case target m of None \<Rightarrow> c | Some (ps, v) \<Rightarrow> write_at c ps v)"
proof (cases "target m")
  case None
  from remediate_without_target [OF None] show ?thesis by (auto simp: None)
next
  case (Some pv)
  then show ?thesis by (cases pv) (simp add: remediate_with_target)
qed

lemma remediate_loop_doc:
  "fst (remediate_loop c F) = run_writes c (List.map_filter target F)"
proof (induction F arbitrary: c)
  case Nil
  show ?case by simp
next
  case (Cons m F)
  obtain c1 out where r: "remediate_misconfiguration c m = (c1, out)"
    by (cases "remediate_misconfiguration c m")
  obtain c2 outs where l: "remediate_loop c1 F = (c2, outs)"
    by (cases "remediate_loop c1 F")
  from remediate_doc [of c m] r have c1: "c1 = (case target m of None \<Rightarrow> c | Some (ps, v) \<Rightarrow> write_at c ps v)"
    by simp
  from Cons.IH [of c1] l have "c2 = run_writes c1 (List.map_filter target F)" by simp
  with r l c1 show ?case by (simp split: option.splits)
qed

lemma loop_document_idempotent:
  "fst (remediate_loop (fst (remediate_loop c F)) F) = fst (remediate_loop c F)"
  by (simp add: remediate_loop_doc run_writes_idempotent)

lemma verdict_resolved: "ps \<noteq> [] \<Longrightarrow> lookup_path c ps = Some old \<Longrightarrow> verdict c ps v = Applied old v"
  by (simp add: verdict_def remediate_path_resolves)

lemma verdict_unresolved:
  assumes "ps \<noteq> []" and "lookup_path c ps = None"
  shows "verdict c ps v = SkippedPathNotFound \<or> (\<exists>e. verdict c ps v = ErrorLogged e)"
proof -
  have bl: "butlast ps @ [last ps] = ps" using assms by simp
  from remediate_path_cases [of c ps v] assms(2) show ?thesis
    unfolding bl by (auto simp: verdict_def)
qed

lemma verdict_settled:
  assumes "ps \<noteq> []"
  shows "verdict (write_at c ps v) ps v = settled (verdict c ps v)"
proof (cases "lookup_path c ps")
  case None
  then have "write_at c ps v = c" using assms by (simp add: write_at_store)
  moreover from verdict_unresolved [OF assms None, of v]
  have "settled (verdict c ps v) = verdict c ps v" by auto
  ultimately show ?thesis by simp
next
  case (Some old)
  then have w: "write_at c ps v = store_at c ps v" using assms by (simp add: write_at_store)
  have "lookup_path (store_at c ps v) ps = Some v" using Some assms by (rule store_at_same)
  then show ?thesis using assms Some by (simp add: w verdict_resolved)
qed

lemma single_finding_settled:
  "snd (remediate_misconfiguration (fst (remediate_misconfiguration c m)) m) =
     settled (snd (remediate_misconfiguration c m))"
proof (cases "target m")
  case None
  from remediate_without_target [OF None] show ?thesis by auto
next
  case (Some pv)
  obtain ps v where pv: "pv = (ps, v)" by (cases pv)
  from Some pv have t: "target m = Some (ps, v)" by simp
  then have "ps \<noteq> []" by (rule target_nonempty)
  then show ?thesis by (simp add: remediate_with_target [OF t] verdict_settled)
qed

subsection \<open>Findings whose paths are apart\<close>

lemma apart_sym: "apart m m' \<Longrightarrow> apart m' m"
  by (auto simp: apart_def split: option.splits)

lemma lookup_write_at_other:
  assumes "\<not> prefix q qs" and "\<not> prefix qs q"
  shows "lookup_path (write_at c q w) qs = lookup_path c qs"
proof -
  from assms(1) have ne: "q \<noteq> []" by auto
  show ?thesis
  proof (cases "lookup_path c q")
    case None
    then show ?thesis using ne by (simp add: write_at_store)
  next
    case (Some x)
    then have "lookup_path c q \<noteq> None" by simp
    from store_at_other [OF this assms] Some ne show ?thesis by (simp add: write_at_store)
  qed
qed

lemma lookup_write_at_prefix:
  "lookup_path c pre = Some node \<Longrightarrow>
   lookup_path (write_at c (pre @ r) w) pre = Some (write_at node r w)"
proof (induction pre arbitrary: c)
  case Nil
  then show ?case by simp
next
  case (Cons k pre)
  from lookup_path_ConsD [OF Cons.prems] obtain kvs child where
    c: "c = PDict kvs" and k: "map_of kvs k = Some child" and ch: "lookup_path child pre = Some node"
    by blast
  from Cons.IH [OF ch] show ?case by (simp add: c k update_conv')
qed

lemma lookup_path_stuck_Cons: "lookup_path node [seg] = None \<Longrightarrow> lookup_path node (seg # r) = None"
  by (cases node) (auto split: option.splits)

lemma stuck_decomp:
  "lookup_path c ps = None \<Longrightarrow>
   \<exists>pre seg rest node. ps = pre @ seg # rest \<and> lookup_path c pre = Some node \<and>
      lookup_path node [seg] = None"
proof (induction ps arbitrary: c)
  case Nil
  then show ?case by simp
next
  case (Cons k ps)
  show ?case
  proof (cases "lookup_path c [k]")
    case None
    then have "k # ps = [] @ k # ps \<and> lookup_path c [] = Some c \<and> lookup_path c [k] = None"
      by simp
    then show ?thesis by blast
  next
    case (Some child)
    from lookup_path_ConsD [OF Some] obtain kvs where
      c: "c = PDict kvs" and k: "map_of kvs k = Some child"
      by auto
    from Cons.prems have "lookup_path child ps = None" by (simp add: c k)
    from Cons.IH [OF this] obtain pre seg rest node where
      d: "ps = pre @ seg # rest" "lookup_path child pre = Some node" "lookup_path node [seg] = None"
      by blast
    then have "k # ps = (k # pre) @ seg # rest \<and> lookup_path c (k # pre) = Some node \<and>
        lookup_path node [seg] = None"
      by (simp add: c k)
    then show ?thesis by blast
  qed
qed

lemma verdict_stuck:
  assumes "ps = pre @ seg # rest" and "lookup_path c pre = Some node"
    and "lookup_path node [seg] = None"
  shows "verdict c ps v =
           (if py_contains node seg = Inr False then SkippedPathNotFound else ErrorLogged TypeError)"
  using remediate_path_stuck [OF assms, of v] by (simp add: verdict_def)

lemma verdict_write_other:
  assumes ne: "ps \<noteq> []" and inc: "\<not> prefix ps q" "\<not> prefix q ps"
  shows "verdict (write_at c q w) ps v = verdict c ps v"
proof (cases "lookup_path c q")
  case None
  moreover from inc(2) have "q \<noteq> []" by auto
  ultimately show ?thesis by (simp add: write_at_store)
next
  case q: (Some x)
  show ?thesis
  proof (cases "lookup_path c ps")
    case (Some old)
    then have "lookup_path (write_at c q w) ps = Some old"
      using inc by (simp add: lookup_write_at_other)
    with Some ne show ?thesis by (simp add: verdict_resolved)
  next
    case None
    from stuck_decomp [OF None] obtain pre seg rest node where
      d: "ps = pre @ seg # rest" "lookup_path c pre = Some node" "lookup_path node [seg] = None"
      by blast
    have "\<exists>node'. lookup_path (write_at c q w) pre = Some node' \<and>
            lookup_path node' [seg] = None \<and> py_contains node' seg = py_contains node seg"
    proof (cases "prefix pre q")
      case False
      moreover have "\<not> prefix q pre" using inc(2) d(1) by (auto simp: prefix_def)
      ultimately have "lookup_path (write_at c q w) pre = Some node"
        using d(2) by (simp add: lookup_write_at_other)
      with d(3) show ?thesis by blast
    next
      case True
      then obtain r where r: "q = pre @ r" by (auto simp: prefix_def)
      with inc(2) d(1) obtain k r' where kr: "r = k # r'" by (cases r) auto
      from q have qn: "lookup_path node (k # r') = Some x"
        by (simp add: r kr lookup_path_append d(2))
      have "k \<noteq> seg"
      proof
        assume "k = seg"
        with d(3) have "lookup_path node (k # r') = None" by (simp add: lookup_path_stuck_Cons)
        with qn show False by simp
      qed
      from lookup_path_ConsD [OF qn] obtain kvs child where
        n: "node = PDict kvs" and k: "map_of kvs k = Some child"
        by blast
      from d(3) have s: "map_of kvs seg = None" by (simp add: n split: option.splits)
      let ?node' = "write_at node r w"
      have l: "lookup_path (write_at c q w) pre = Some ?node'"
        unfolding r using d(2) by (rule lookup_write_at_prefix)
      have m: "map_of (AList.update k (write_at child r' w) kvs) seg = None"
        using s \<open>k \<noteq> seg\<close> by (simp add: update_conv')
      have "lookup_path ?node' [seg] = None"
        using m by (simp add: n kr k)
      moreover have "py_contains ?node' seg = py_contains node seg"
        using m s by (simp add: n kr k mem_keys_iff)
      ultimately show ?thesis using l by blast
    qed
    then obtain node' where
      n': "lookup_path (write_at c q w) pre = Some node'" "lookup_path node' [seg] = None"
        "py_contains node' seg = py_contains node seg"
      by blast
    show ?thesis
      by (simp add: verdict_stuck [OF d] verdict_stuck [OF d(1) n'(1,2)] n'(3))
  qed
qed

lemma remediate_apart:
  assumes "apart m m'"
  shows "snd (remediate_misconfiguration (fst (remediate_misconfiguration c m)) m') =
         snd (remediate_misconfiguration c m')"
proof (cases "target m'")
  case None
  from remediate_without_target [OF None] show ?thesis by auto
next
  case (Some pv)
  obtain p v where t': "target m' = Some (p, v)" using Some by (cases pv) simp
  then have ne: "p \<noteq> []" by (rule target_nonempty)
  show ?thesis
  proof (cases "target m")
    case None
    then show ?thesis by (simp add: remediate_doc)
  next
    case (Some qw)
    obtain q w where t: "target m = Some (q, w)" using Some by (cases qw) simp
    from assms t t' have "\<not> prefix p q" "\<not> prefix q p" by (simp_all add: apart_def)
    with ne show ?thesis
      by (simp add: remediate_with_target [OF t'] remediate_with_target [OF t]
          verdict_write_other)
  qed
qed

lemma remediate_loop_Cons_doc:
  "fst (remediate_loop c (m # F)) = fst (remediate_loop (fst (remediate_misconfiguration c m)) F)"
  by (simp split: prod.splits)

lemma remediate_loop_Cons_out:
  "snd (remediate_loop c (m # F)) =
     snd (remediate_misconfiguration c m) #
     snd (remediate_loop (fst (remediate_misconfiguration c m)) F)"
  by (simp split: prod.splits)

lemma remediate_loop_apart:
  "\<forall>m \<in> set F. apart m m' \<Longrightarrow>
   snd (remediate_misconfiguration (fst (remediate_loop c F)) m') =
   snd (remediate_misconfiguration c m')"
proof (induction F arbitrary: c)
  case Nil
  show ?case by simp
next
  case (Cons m F)
  from Cons.prems have a: "apart m m'" and rest: "\<forall>m \<in> set F. apart m m'" by simp_all
  from Cons.IH [OF rest, of "fst (remediate_misconfiguration c m)"] remediate_apart [OF a, of c]
  show ?case by (simp only: remediate_loop_Cons_doc)
qed

lemma independent_outcomes:
  "independent F \<Longrightarrow>
   snd (remediate_loop c F) = map (\<lambda>m. snd (remediate_misconfiguration c m)) F"
proof (induction F arbitrary: c)
  case Nil
  show ?case by simp
next
  case (Cons m F)
  from Cons.prems have a: "\<forall>m' \<in> set F. apart m m'" and ind: "independent F" by simp_all
  let ?c1 = "fst (remediate_misconfiguration c m)"
  have "map (\<lambda>m'. snd (remediate_misconfiguration ?c1 m')) F =
        map (\<lambda>m'. snd (remediate_misconfiguration c m')) F"
    using a by (auto intro!: map_cong simp: remediate_apart)
  with Cons.IH [OF ind, of ?c1] show ?case by (simp only: remediate_loop_Cons_out list.map)
qed

lemma independent_second_outcome:
  "independent F \<Longrightarrow> m \<in> set F \<Longrightarrow>
   snd (remediate_misconfiguration (fst (remediate_loop c F)) m) =
   settled (snd (remediate_misconfiguration c m))"
proof (induction F arbitrary: c)
  case Nil
  then show ?case by simp
next
  case (Cons m0 F)
  from Cons.prems(1) have a: "\<forall>m' \<in> set F. apart m0 m'" and ind: "independent F" by simp_all
  let ?c1 = "fst (remediate_misconfiguration c m0)"
  show ?case
  proof (cases "m \<in> set F")
    case True
    from a True have "apart m0 m" by blast
    from Cons.IH [OF ind True, of ?c1] remediate_apart [OF this, of c]
    show ?thesis by (simp only: remediate_loop_Cons_doc)
  next
    case False
    with Cons.prems(2) have m: "m = m0" by simp
    from a have "\<forall>m' \<in> set F. apart m' m0" by (auto intro: apart_sym)
    from remediate_loop_apart [OF this, of ?c1] single_finding_settled [of c m0]
    show ?thesis by (simp only: remediate_loop_Cons_doc m)
  qed
qed

lemma independent_settled:
  assumes "independent F"
  shows "snd (remediate_loop (fst (remediate_loop c F)) F) = map settled (snd (remediate_loop c F))"
proof -
  let ?d = "fst (remediate_loop c F)"
  have "snd (remediate_loop ?d F) = map (\<lambda>m. snd (remediate_misconfiguration ?d m)) F"
    using assms by (rule independent_outcomes)
  also have "\<dots> = map (\<lambda>m. settled (snd (remediate_misconfiguration c m))) F"
    using assms by (auto intro!: map_cong simp: independent_second_outcome)
  also have "\<dots> = map settled (map (\<lambda>m. snd (remediate_misconfiguration c m)) F)"
    by simp
  also have "\<dots> = map settled (snd (remediate_loop c F))"
    using assms by (simp add: independent_outcomes)
  finally show ?thesis .
qed

subsection \<open>Walks that stop\<close>

lemma unresolved_doc_unchanged:
  assumes "py_get m ''path'' = Inr (PStr s)" and "lookup_path config (split_dot s) = None"
  shows "fst (remediate_misconfiguration config m) = config"
proof (cases "target m")
  case None
  then show ?thesis by (simp add: remediate_doc)
next
  case (Some pv)
  obtain ps v where t: "target m = Some (ps, v)" using Some by (cases pv) simp
  with assms(1) have ps: "ps = split_dot s" by (auto simp: target_Some)
  have "ps \<noteq> []" using t by (rule target_nonempty)
  then show ?thesis using assms(2) by (simp add: remediate_doc t ps write_at_store)
qed

lemma absent_key_outcome:
  assumes "py_get m ''path'' = Inr (PStr s)" and "s \<noteq> []"
    and "py_get m ''suggested_value'' = Inr v" and "truthy v"
    and "split_dot s = pre @ seg # rest"
    and "lookup_path config pre = Some (PDict kvs)" and "map_of kvs seg = None"
  shows "remediate_misconfiguration config m = (config, SkippedPathNotFound)"
proof -
  have "seg \<notin> fst ` set kvs" using assms(7) by (simp add: mem_keys_iff)
  then have "remediate_path config (split_dot s) v = Inr (config, SkippedPathNotFound)"
    using remediate_path_stuck [OF assms(5,6), of v] assms(7) by simp
  then show ?thesis
    using remediate_body_fields [OF assms(1-4), of config]
    by (simp add: remediate_misconfiguration_def)
qed

lemma non_dict_outcome:
  assumes "py_get m ''path'' = Inr (PStr s)" and "s \<noteq> []"
    and "py_get m ''suggested_value'' = Inr v" and "truthy v"
    and "split_dot s = pre @ seg # rest"
    and "lookup_path config pre = Some node" and "\<not> is_dict node"
  shows "remediate_misconfiguration config m =
           (config, if py_contains node seg = Inr False then SkippedPathNotFound
                    else ErrorLogged TypeError)"
proof -
  have "lookup_path node [seg] = None" using assms(7) by (rule lookup_path_not_dict)
  from remediate_path_stuck [OF assms(5,6) this, of v] show ?thesis
    using remediate_body_fields [OF assms(1-4), of config]
    by (simp add: remediate_misconfiguration_def)
qed

subsection \<open>One assignment on a tree\<close>

text \<open>
  On a tree, a call that reports \<open>Applied\<close> returns the tree with the last segment of
  the path rebound in its parent dict: the path read the old value before and reads the
  suggested value after, every path that neither extends the finding's path nor is a
  prefix of it reads what it read before, and every node on the way down is a dict
  before and after, with the same keys in the same order.
\<close>

lemma assignment_frame_on_trees:
  assumes "remediate_misconfiguration config m = (config', Applied old new)"
  shows "\<exists>s. py_get m ''path'' = Inr (PStr s) \<and> py_get m ''suggested_value'' = Inr new \<and>
           config' = store_at config (split_dot s) new \<and>
           lookup_path config (split_dot s) = Some old \<and>
           lookup_path config' (split_dot s) = Some new \<and>
           (\<forall>qs. \<not> prefix (split_dot s) qs \<and> \<not> prefix qs (split_dot s) \<longrightarrow>
                  lookup_path config' qs = lookup_path config qs) \<and>
           (\<forall>qs. strict_prefix qs (split_dot s) \<longrightarrow>
                  (\<exists>n n'. lookup_path config qs = Some n \<and> lookup_path config' qs = Some n' \<and>
                     is_dict n \<and> is_dict n' \<and> keys_of n' = keys_of n))"
proof -
  from remediate_body_cases [of config m] assms
  obtain s v where f: "py_get m ''path'' = Inr (PStr s)" "s \<noteq> []"
      "py_get m ''suggested_value'' = Inr v" "truthy v"
    and b: "remediate_body config m = remediate_path config (split_dot s) v"
    by (auto simp: remediate_misconfiguration_def)
  let ?parts = "split_dot s"
  have ne: "?parts \<noteq> []" by (rule split_dot_not_Nil)
  then have bl: "butlast ?parts @ [last ?parts] = ?parts" by simp
  from remediate_path_cases [of config ?parts v] assms b
  have r: "remediate_path config ?parts v = Inr (store_at config ?parts v, Applied old v)"
    and l: "lookup_path config ?parts = Some old" and nv: "new = v"
    and c': "config' = store_at config ?parts v"
    unfolding bl by (auto simp: remediate_misconfiguration_def)
  from l have l': "lookup_path config ?parts \<noteq> None" by simp
  have "lookup_path config' ?parts = Some new"
    unfolding c' nv using l ne by (rule store_at_same)
  moreover have "\<forall>qs. \<not> prefix ?parts qs \<and> \<not> prefix qs ?parts \<longrightarrow>
                  lookup_path config' qs = lookup_path config qs"
    unfolding c' using store_at_other [OF l'] by blast
  moreover have "\<forall>qs. strict_prefix qs ?parts \<longrightarrow>
                  (\<exists>n n'. lookup_path config qs = Some n \<and> lookup_path config' qs = Some n' \<and>
                     is_dict n \<and> is_dict n' \<and> keys_of n' = keys_of n)"
    unfolding c' using store_at_prefix_keys [OF l'] by blast
  ultimately show ?thesis using f l c' nv by blast
qed

subsection \<open>The store\<close>

text \<open>
  The walk on the store reaches what the lookup reads; a successful call has found both
  fields and a dict at the end of the walk, and has changed the store at the address of
  that dict only.
\<close>

lemma store_descend_lookup:
  "store_descend h a ps = Inr (Some b) \<Longrightarrow> store_lookup h a ps = Some b"
proof (induction ps arbitrary: a)
  case Nil
  then show ?case by simp
next
  case (Cons p ps)
  then show ?case
    by (cases "h a") (auto split: if_splits option.splits sum.splits bool.splits)
qed

lemma store_lookup_snoc:
  "store_lookup h a ps = Some b \<Longrightarrow> h b = ODict kas \<Longrightarrow> map_of kas k = Some c \<Longrightarrow>
   store_lookup h a (ps @ [k]) = Some c"
proof (induction ps arbitrary: a)
  case Nil
  then show ?case by simp
next
  case (Cons p ps)
  then show ?case by (cases "h a") (auto split: option.splits)
qed

lemma store_remediate_path_Applied:
  assumes "store_remediate_path h config parts v = Inr (h', AppliedAt old new)"
  shows "\<exists>current kas.
           store_descend h config (butlast parts) = Inr (Some current) \<and>
           h current = ODict kas \<and> map_of kas (last parts) = Some old \<and> new = v \<and>
           h' = h(current := ODict (AList.update (last parts) v kas))"
proof -
  from assms obtain current where d: "store_descend h config (butlast parts) = Inr (Some current)"
    by (auto simp: store_remediate_path_def split: sum.splits option.splits)
  show ?thesis
  proof (cases "h current")
    case (ODict kas)
    with assms d show ?thesis
      by (auto simp: store_remediate_path_def split: sum.splits option.splits bool.splits if_splits)
  qed (use assms d in \<open>auto simp: store_remediate_path_def split: sum.splits option.splits bool.splits if_splits\<close>)
qed

lemma store_remediate_Applied:
  assumes "store_remediate_misconfiguration h config m = (h', AppliedAt old new)"
  shows "\<exists>p s. obj_get (h m) ''path'' = Inr (Some p) \<and> h p = OStr s \<and>
           obj_get (h m) ''suggested_value'' = Inr (Some new) \<and>
           store_remediate_path h config (split_dot s) new = Inr (h', AppliedAt old new)"
proof -
  from assms obtain p v where g: "obj_get (h m) ''path'' = Inr (Some p)"
      "obj_get (h m) ''suggested_value'' = Inr (Some v)"
    by (auto simp: store_remediate_misconfiguration_def store_remediate_body_def
             split: sum.splits option.splits)
  from assms g obtain s where s: "h p = OStr s"
    by (cases "h p")
       (auto simp: store_remediate_misconfiguration_def store_remediate_body_def
             split: sum.splits option.splits if_splits)
  from assms g s have r: "store_remediate_path h config (split_dot s) v = Inr (h', AppliedAt old new)"
    by (auto simp: store_remediate_misconfiguration_def store_remediate_body_def
             split: sum.splits option.splits if_splits)
  from store_remediate_path_Applied [OF r] have "new = v" by blast
  with g s r show ?thesis by blast
qed

lemma store_lookup_frame:
  assumes "h current = ODict kas"
    and "(current, k) \<notin> set (store_edges h a qs)"
  shows "store_lookup (h(current := ODict (AList.update k v kas))) a qs = store_lookup h a qs"
  using assms(2)
proof (induction qs arbitrary: a)
  case Nil
  then show ?case by simp
next
  case (Cons q qs)
  show ?case
  proof (cases "a = current")
    case True
    with Cons.prems have qk: "q \<noteq> k" by auto
    then have m: "map_of (AList.update k v kas) q = map_of kas q"
      by (simp add: update_conv')
    show ?thesis
    proof (cases "map_of kas q")
      case None
      with True m assms(1) show ?thesis by simp
    next
      case (Some child)
      with Cons.prems True assms(1) have "(current, k) \<notin> set (store_edges h child qs)" by simp
      from Cons.IH [OF this] True m assms(1) Some show ?thesis by simp
    qed
  next
    case False
    show ?thesis
    proof (cases "h a")
      case (ODict kbs)
      show ?thesis
      proof (cases "map_of kbs q")
        case None
        with False ODict show ?thesis by simp
      next
        case (Some child)
        with Cons.prems ODict have "(current, k) \<notin> set (store_edges h child qs)" by simp
        from Cons.IH [OF this] False ODict Some show ?thesis by simp
      qed
    qed (use False in auto)
  qed
qed

lemma store_edges_reach:
  "(current, k) \<in> set (store_edges h a qs) \<Longrightarrow>
   \<exists>pre rest. qs = pre @ k # rest \<and> store_lookup h a pre = Some current"
proof (induction qs arbitrary: a)
  case Nil
  then show ?case by simp
next
  case (Cons q qs)
  show ?case
  proof (cases "a = current \<and> q = k")
    case True
    then have "q # qs = [] @ k # qs \<and> store_lookup h a [] = Some current" by simp
    then show ?thesis by blast
  next
    case False
    with Cons.prems obtain kas child where a: "h a = ODict kas" and c: "map_of kas q = Some child"
      and m: "(current, k) \<in> set (store_edges h child qs)"
      by (cases "h a") (fastforce split: option.splits)+
    from Cons.IH [OF m] obtain pre rest where
      "qs = pre @ k # rest" "store_lookup h child pre = Some current" by blast
    with a c have "q # qs = (q # pre) @ k # rest \<and> store_lookup h a (q # pre) = Some current"
      by simp
    then show ?thesis by blast
  qed
qed

text \<open>In the scenario the dict of the password policy is reached by one path only.\<close>

lemma scenario_unique:
  "store_lookup scenario_store 0 q = Some 2 \<Longrightarrow> q = [''security'', ''password_policy'']"
proof (cases q)
  case Nil
  then show "store_lookup scenario_store 0 q = Some 2 \<Longrightarrow> ?thesis"
    by (simp add: scenario_store_def)
next
  case q1: (Cons k1 r1)
  assume a: "store_lookup scenario_store 0 q = Some 2"
  show ?thesis
  proof (cases r1)
    case Nil
    with a q1 show ?thesis by (simp add: scenario_store_def split: if_splits)
  next
    case q2: (Cons k2 r2)
    show ?thesis
    proof (cases r2)
      case Nil
      with a q1 q2 show ?thesis by (simp add: scenario_store_def split: if_splits)
    next
      case q3: (Cons k3 r3)
      show ?thesis
      proof (cases r3)
        case Nil
        with a q1 q2 q3 show ?thesis by (simp add: scenario_store_def split: if_splits)
      next
        case (Cons k4 r4)
        with a q1 q2 q3 show ?thesis by (simp add: scenario_store_def split: if_splits)
      qed
    qed
  qed
qed

subsection \<open>Applying a list twice, on trees\<close>

text \<open>
  On trees, where findings are values: a second pass over the result of the first
  returns the same tree, and for an independent list the outcomes of the second pass are
  those of the first, settled.
\<close>

lemma second_pass_on_trees:
  "fst (apply_findings (fst (apply_findings config F)) F) = fst (apply_findings config F) \<and>
   (independent F \<longrightarrow>
      snd (apply_findings (fst (apply_findings config F)) F) =
        map settled (snd (apply_findings config F)))"
  by (simp add: apply_findings_loop loop_document_idempotent independent_settled)

subsection \<open>The store and the tree\<close>

text \<open>
  The functions on trees compute what the functions on the store do, as long as the
  store holds the document and the findings as trees without a shared list or dict:
  the primitives agree, the walk reaches the object that holds the node the walk on the
  tree reaches, and the assignment of line 114 leaves a store that holds the tree
  \<open>store_at\<close> returns. A change of one dict leaves every tree that does not contain
  that dict as it was.
\<close>

lemma repr_items_Cons:
  "repr_items h (x # xs) (t # ts) = (repr h x t \<and> repr_items h xs ts)"
  by simp

lemma repr_entries_Cons:
  "repr_entries h ((k', a) # kas) ((k, t) # kvs) = (k' = k \<and> repr h a t \<and> repr_entries h kas kvs)"
  by simp

lemma frame:
  assumes c: "h cur = ODict kas0" and fr: "\<forall>b. b \<noteq> cur \<longrightarrow> h' b = h b"
  shows "repr h a t \<Longrightarrow> cur \<notin> set (cells h a t) \<Longrightarrow>
           repr h' a t \<and> cells h' a t = cells h a t"
    and "repr_items h xs ts \<Longrightarrow> cur \<notin> set (cells_items h xs ts) \<Longrightarrow>
           repr_items h' xs ts \<and> cells_items h' xs ts = cells_items h xs ts"
    and "repr_entries h kas kvs \<Longrightarrow> cur \<notin> set (cells_entries h kas kvs) \<Longrightarrow>
           repr_entries h' kas kvs \<and> cells_entries h' kas kvs = cells_entries h kas kvs"
  using c fr
proof (induction h a t and h xs ts and h kas kvs rule: repr_repr_items_repr_entries.induct)
  case (1 h a)
  then have "a \<noteq> cur" by auto
  with 1 show ?case by auto
next
  case (2 h a b)
  then have "a \<noteq> cur" by auto
  with 2 show ?case by auto
next
  case (3 h a i)
  then have "a \<noteq> cur" by auto
  with 3 show ?case by auto
next
  case (4 h a r)
  then have "a \<noteq> cur" by auto
  with 4 show ?case by auto
next
  case (5 h a s)
  then have "a \<noteq> cur" by auto
  with 5 show ?case by auto
next
  case (6 h a ts)
  then have "a \<noteq> cur" by auto
  with 6 show ?case by (auto split: pyobj.splits)
next
  case (7 h a kvs)
  then have "a \<noteq> cur" by auto
  with 7 show ?case by (auto split: pyobj.splits)
next
  case (8 h xs)
  then show ?case by simp
next
  case (9 h xs t ts)
  then show ?case by (auto split: list.splits)
next
  case (10 h kas)
  then show ?case by simp
next
  case (11 h kas k t kvs)
  then show ?case by (auto split: list.splits)
qed

text \<open>A store holds at most one tree at an address.\<close>

lemma repr_unique:
  "repr h a t \<Longrightarrow> repr h a t' \<Longrightarrow> t = t'"
  "repr_items h xs ts \<Longrightarrow> repr_items h xs ts' \<Longrightarrow> ts = ts'"
  "repr_entries h kas kvs \<Longrightarrow> repr_entries h kas kvs' \<Longrightarrow> kvs = kvs'"
proof (induction h a t and h xs ts and h kas kvs arbitrary: t' and ts' and kvs'
       rule: repr_repr_items_repr_entries.induct)
  case (1 h a)
  then show ?case by (cases t') (simp_all split: pyobj.splits)
next
  case (2 h a b)
  then show ?case by (cases t') (simp_all split: pyobj.splits)
next
  case (3 h a i)
  then show ?case by (cases t') (simp_all split: pyobj.splits)
next
  case (4 h a r)
  then show ?case by (cases t') (simp_all split: pyobj.splits)
next
  case (5 h a s)
  then show ?case by (cases t') (simp_all split: pyobj.splits)
next
  case (6 h a ts)
  from 6(2) obtain xs where x: "h a = OList xs" and r: "repr_items h xs ts"
    by (cases "h a") simp_all
  from 6(3) x obtain us where t': "t' = PList us" and r': "repr_items h xs us"
    by (cases t') simp_all
  from 6(1) [OF x r r'] t' show ?case by simp
next
  case (7 h a kvs)
  from 7(2) obtain kas where x: "h a = ODict kas" and r: "repr_entries h kas kvs"
    by (cases "h a") simp_all
  from 7(3) x obtain us where t': "t' = PDict us" and r': "repr_entries h kas us"
    by (cases t') simp_all
  from 7(1) [OF x r r'] t' show ?case by simp
next
  case (8 h xs)
  then show ?case by (cases ts') (simp_all split: list.splits)
next
  case (9 h xs t ts)
  from 9(3) obtain x xs' where x: "xs = x # xs'" and r: "repr h x t" "repr_items h xs' ts"
    by (cases xs) simp_all
  from 9(4) x obtain u us where t': "ts' = u # us" and r': "repr h x u" "repr_items h xs' us"
    by (cases ts') simp_all
  from 9(1) [OF x r(1) r'(1)] 9(2) [OF x r(2) r'(2)] t' show ?case by simp
next
  case (10 h kas)
  then show ?case by (cases kvs') auto
next
  case (11 h kas k t kvs)
  from 11(3) obtain a kas' where x: "kas = (k, a) # kas'" and r: "repr h a t" "repr_entries h kas' kvs"
    by (cases kas) auto
  from 11(4) x obtain u us where t': "kvs' = (k, u) # us" and r': "repr h a u" "repr_entries h kas' us"
    by (cases kvs') auto
  from 11(1) [OF x _ r(1) r'(1)] 11(2) [OF x _ r(2) r'(2)] t' show ?case by simp
qed

lemma repr_items_length: "repr_items h xs ts \<Longrightarrow> length xs = length ts"
  by (induction ts arbitrary: xs) (auto split: list.splits)

lemma repr_entries_keys: "repr_entries h kas kvs \<Longrightarrow> map fst kas = map fst kvs"
  by (induction kvs arbitrary: kas) (auto split: list.splits)

lemma repr_truthy: "repr h a t \<Longrightarrow> obj_truthy (h a) = truthy t"
proof (cases t)
  case (PList ts)
  assume "repr h a t"
  with PList show ?thesis by (auto split: pyobj.splits dest: repr_items_length)
next
  case (PDict kvs)
  assume "repr h a t"
  with PDict show ?thesis by (auto split: pyobj.splits dest!: repr_entries_keys)
qed auto

lemma repr_str: "repr h a t \<Longrightarrow> (h a = OStr k) = (t = PStr k)"
  by (cases t) (auto split: pyobj.splits)

lemma repr_items_mem:
  "repr_items h xs ts \<Longrightarrow> (\<exists>x \<in> set xs. h x = OStr k) = (PStr k \<in> set ts)"
proof (induction ts arbitrary: xs)
  case Nil
  then show ?case by simp
next
  case (Cons t ts)
  then obtain x xs' where xs: "xs = x # xs'" and r: "repr h x t" and rs: "repr_items h xs' ts"
    by (auto split: list.splits)
  from Cons.IH [OF rs] repr_str [OF r, of k] show ?case unfolding xs by auto
qed

lemma repr_entries_map_of:
  assumes "repr_entries h kas kvs"
  shows "(map_of kas k = None \<longleftrightarrow> map_of kvs k = None) \<and>
         (\<forall>b. map_of kas k = Some b \<longrightarrow>
            (\<exists>t. map_of kvs k = Some t \<and> repr h b t \<and>
               set (cells h b t) \<subseteq> set (cells_entries h kas kvs) \<and>
               (distinct (cells_entries h kas kvs) \<longrightarrow> distinct (cells h b t))))"
  using assms
proof (induction kvs arbitrary: kas)
  case Nil
  then show ?case by simp
next
  case (Cons kv kvs)
  obtain k0 t0 where kv: "kv = (k0, t0)" by (cases kv)
  with Cons.prems obtain a0 kas' where kas: "kas = (k0, a0) # kas'"
    and r: "repr h a0 t0" and rs: "repr_entries h kas' kvs"
    by (auto split: list.splits)
  from Cons.IH [OF rs] r show ?case unfolding kas kv by auto
qed

lemma repr_entries_keyset: "repr_entries h kas kvs \<Longrightarrow> fst ` set kas = fst ` set kvs"
proof -
  assume "repr_entries h kas kvs"
  then have "set (map fst kas) = set (map fst kvs)" by (simp add: repr_entries_keys)
  then show ?thesis by simp
qed

lemma repr_contains: "repr h a t \<Longrightarrow> obj_contains h (h a) k = py_contains t k"
proof (cases t)
  case (PList ts)
  assume "repr h a t"
  with PList show ?thesis by (auto split: pyobj.splits dest: repr_items_mem [of h _ _ k])
next
  case (PDict kvs)
  assume "repr h a t"
  with PDict show ?thesis by (auto split: pyobj.splits dest!: repr_entries_keyset)
qed auto

lemma py_contains_error: "py_contains t k = Inl e \<Longrightarrow> e = TypeError"
  by (cases t) auto

lemma repr_dict:
  "repr h a t \<Longrightarrow> h a = ODict kas \<Longrightarrow> \<exists>kvs. t = PDict kvs \<and> repr_entries h kas kvs"
  by (cases t) (auto split: pyobj.splits)

lemma repr_dict':
  "repr h a (PDict kvs) \<Longrightarrow> \<exists>kas. h a = ODict kas \<and> repr_entries h kas kvs"
  by (auto split: pyobj.splits)

lemma repr_not_dict:
  "repr h a t \<Longrightarrow> \<not> is_dict t \<Longrightarrow> obj_getitem (h a) k = Inl TypeError"
  by (cases t) (auto split: pyobj.splits)

text \<open>The walk on the store follows the walk on the tree.\<close>

lemma repr_lookup:
  assumes "repr h a t" and "distinct (cells h a t)" and "lookup_path t ps = Some n"
  shows "\<exists>b. store_lookup h a ps = Some b \<and> store_descend h a ps = Inr (Some b) \<and> repr h b n \<and>
             set (cells h b n) \<subseteq> set (cells h a t) \<and> distinct (cells h b n)"
  using assms
proof (induction ps arbitrary: a t)
  case Nil
  then show ?case by simp
next
  case (Cons p ps)
  from Cons.prems(3) obtain kvs child where t: "t = PDict kvs" and m: "map_of kvs p = Some child"
    and l: "lookup_path child ps = Some n"
    by (cases t) (auto split: option.splits)
  from Cons.prems(1) t obtain kas where a: "h a = ODict kas" and e: "repr_entries h kas kvs"
    using repr_dict' by blast
  from repr_entries_map_of [OF e, of p] m obtain c where c: "map_of kas p = Some c"
    by (cases "map_of kas p") auto
  with repr_entries_map_of [OF e, of p] m have rc: "repr h c child"
    and sub: "set (cells h c child) \<subseteq> set (cells_entries h kas kvs)"
    and dc: "distinct (cells_entries h kas kvs) \<longrightarrow> distinct (cells h c child)"
    by auto
  from Cons.prems(2) t a have d: "distinct (cells_entries h kas kvs)" by simp
  from Cons.IH [OF rc _ l] dc d obtain b where
    b: "store_lookup h c ps = Some b" "store_descend h c ps = Inr (Some b)" "repr h b n"
       "set (cells h b n) \<subseteq> set (cells h c child)" "distinct (cells h b n)"
    by blast
  have mem: "p \<in> fst ` set kas" using map_of_SomeD [OF c] by force
  from b sub t a c mem show ?case by auto
qed

lemma repr_descend:
  assumes "repr h a t" and "distinct (cells h a t)"
  shows "(\<forall>e. descend t ps = Inl e \<longrightarrow> store_descend h a ps = Inl e) \<and>
         (descend t ps = Inr None \<longrightarrow> store_descend h a ps = Inr None)"
  using assms
proof (induction ps arbitrary: a t)
  case Nil
  then show ?case by simp
next
  case (Cons p ps)
  show ?case
  proof (cases "is_dict t")
    case False
    from repr_contains [OF Cons.prems(1), of p] repr_not_dict [OF Cons.prems(1) False, of p]
    show ?thesis unfolding descend_not_dict [OF False]
      by (auto split: sum.splits bool.splits dest: py_contains_error)
  next
    case True
    then obtain kvs where t: "t = PDict kvs" by (cases t) auto
    from Cons.prems(1) t obtain kas where a: "h a = ODict kas" and e: "repr_entries h kas kvs"
      using repr_dict' by blast
    show ?thesis
    proof (cases "map_of kvs p")
      case None
      with repr_entries_map_of [OF e, of p] have n: "map_of kas p = None" by simp
      then have "p \<notin> fst ` set kas" by (simp add: mem_keys_iff)
      with None a show ?thesis unfolding t descend_dict by simp
    next
      case (Some child)
      with repr_entries_map_of [OF e, of p] obtain c where c: "map_of kas p = Some c"
        by (cases "map_of kas p") auto
      with repr_entries_map_of [OF e, of p] Some have rc: "repr h c child"
        and dc: "distinct (cells_entries h kas kvs) \<longrightarrow> distinct (cells h c child)"
        by auto
      from Cons.prems(2) t a have d: "distinct (cells_entries h kas kvs)" by simp
      have mem: "p \<in> fst ` set kas" using map_of_SomeD [OF c] by force
      from Cons.IH [OF rc] dc d Some a c mem show ?thesis unfolding t descend_dict by simp
    qed
  qed
qed


text \<open>Rebinding a key of a dict to a separate object.\<close>

lemma entries_update:
  assumes c: "h cur = ODict kas0" and fr: "\<forall>b. b \<noteq> cur \<longrightarrow> h' b = h b"
    and x: "repr h x v" "distinct (cells h x v)" "cur \<notin> set (cells h x v)"
  shows "repr_entries h kas kvs \<Longrightarrow> distinct (cells_entries h kas kvs) \<Longrightarrow>
         cur \<notin> set (cells_entries h kas kvs) \<Longrightarrow>
         set (cells_entries h kas kvs) \<inter> set (cells h x v) = {} \<Longrightarrow>
         repr_entries h' (AList.update k x kas) (AList.update k v kvs) \<and>
         distinct (cells_entries h' (AList.update k x kas) (AList.update k v kvs)) \<and>
         set (cells_entries h' (AList.update k x kas) (AList.update k v kvs))
           \<subseteq> set (cells_entries h kas kvs) \<union> set (cells h x v)"
proof (induction kvs arbitrary: kas)
  case Nil
  then have "kas = []" by simp
  with frame(1) [OF c fr x(1,3)] x(2) show ?case by simp
next
  case (Cons kv kvs)
  obtain k0 t0 where kv: "kv = (k0, t0)" by (cases kv)
  with Cons.prems(1) obtain a0 kas' where kas: "kas = (k0, a0) # kas'"
    and r: "repr h a0 t0" and rs: "repr_entries h kas' kvs"
    by (auto split: list.splits)
  from Cons.prems(2-4) have d0: "distinct (cells h a0 t0)" and ds: "distinct (cells_entries h kas' kvs)"
    and dj0: "set (cells h a0 t0) \<inter> set (cells_entries h kas' kvs) = {}"
    and n0: "cur \<notin> set (cells h a0 t0)" and ns: "cur \<notin> set (cells_entries h kas' kvs)"
    and x0: "set (cells h a0 t0) \<inter> set (cells h x v) = {}"
    and xs: "set (cells_entries h kas' kvs) \<inter> set (cells h x v) = {}"
    unfolding kas kv by auto
  note fx = frame(1) [OF c fr x(1,3)]
  show ?case
  proof (cases "k0 = k")
    case True
    from frame(3) [OF c fr rs ns] fx x(2) ds xs
    show ?thesis unfolding kas kv using True by auto
  next
    case False
    from Cons.IH [OF rs ds ns xs] frame(1) [OF c fr r n0] d0 dj0 x0
    show ?thesis unfolding kas kv using False by auto
  qed
qed

text \<open>A change inside the child at a key leaves the other entries as they are.\<close>

lemma entries_child:
  assumes c: "h cur = ODict kas0" and fr: "\<forall>b. b \<noteq> cur \<longrightarrow> h' b = h b"
    and r': "repr h' c tc'" and d': "distinct (cells h' c tc')"
  shows "repr_entries h kas kvs \<Longrightarrow> distinct (cells_entries h kas kvs) \<Longrightarrow>
         map_of kas p = Some c \<Longrightarrow> map_of kvs p = Some tc \<Longrightarrow>
         cur \<in> set (cells h c tc) \<Longrightarrow>
         set (cells h' c tc') \<subseteq> set (cells h c tc) \<union> V \<Longrightarrow>
         set (cells_entries h kas kvs) \<inter> V = {} \<Longrightarrow>
         repr_entries h' kas (AList.update p tc' kvs) \<and>
         distinct (cells_entries h' kas (AList.update p tc' kvs)) \<and>
         set (cells_entries h' kas (AList.update p tc' kvs))
           \<subseteq> set (cells_entries h kas kvs) \<union> V"
proof (induction kvs arbitrary: kas)
  case Nil
  then show ?case by simp
next
  case (Cons kv kvs)
  obtain k0 t0 where kv: "kv = (k0, t0)" by (cases kv)
  with Cons.prems(1) obtain a0 kas' where kas: "kas = (k0, a0) # kas'"
    and r: "repr h a0 t0" and rs: "repr_entries h kas' kvs"
    by (auto split: list.splits)
  from Cons.prems(2,7) have d0: "distinct (cells h a0 t0)" and ds: "distinct (cells_entries h kas' kvs)"
    and dj0: "set (cells h a0 t0) \<inter> set (cells_entries h kas' kvs) = {}"
    and v0: "set (cells h a0 t0) \<inter> V = {}"
    and vs: "set (cells_entries h kas' kvs) \<inter> V = {}"
    unfolding kas kv by auto
  show ?case
  proof (cases "k0 = p")
    case True
    with Cons.prems(3,4) have eq: "c = a0" "tc = t0" unfolding kas kv by auto
    from Cons.prems(5) dj0 have ns: "cur \<notin> set (cells_entries h kas' kvs)" unfolding eq by auto
    from frame(3) [OF c fr rs ns] r' d' Cons.prems(6) ds dj0 vs
    show ?thesis unfolding kas kv eq using True eq by auto
  next
    case False
    with Cons.prems(3,4) have mk: "map_of kas' p = Some c" and mv: "map_of kvs p = Some tc"
      unfolding kas kv by auto
    from repr_entries_map_of [OF rs, of p] mk mv
    have "set (cells h c tc) \<subseteq> set (cells_entries h kas' kvs)" by auto
    with Cons.prems(5) dj0 have n0: "cur \<notin> set (cells h a0 t0)" by auto
    from Cons.IH [OF rs ds mk mv Cons.prems(5,6) vs] frame(1) [OF c fr r n0] d0 dj0 v0
    show ?thesis unfolding kas kv using False by auto
  qed
qed

text \<open>The assignment of line 114 on a store whose document is a tree.\<close>

lemma repr_store_at:
  assumes "repr h a t" and "distinct (cells h a t)"
    and "lookup_path t (pre @ [k]) = Some old"
    and x: "repr h x v" "distinct (cells h x v)"
    and "set (cells h a t) \<inter> set (cells h x v) = {}"
  shows "\<exists>cur kas. store_lookup h a pre = Some cur \<and> h cur = ODict kas \<and>
           cur \<in> set (cells h a t) \<and>
           (\<forall>h'. h' cur = ODict (AList.update k x kas) \<longrightarrow> (\<forall>b. b \<noteq> cur \<longrightarrow> h' b = h b) \<longrightarrow>
              repr h' a (store_at t (pre @ [k]) v) \<and>
              distinct (cells h' a (store_at t (pre @ [k]) v)) \<and>
              set (cells h' a (store_at t (pre @ [k]) v)) \<subseteq> set (cells h a t) \<union> set (cells h x v))"
  using assms(1-3,6)
proof (induction pre arbitrary: a t)
  case Nil
  from Nil.prems(3) obtain kvs where t: "t = PDict kvs" and m: "map_of kvs k = Some old"
    by (cases t) (auto split: option.splits)
  from Nil.prems(1) t obtain kas where a: "h a = ODict kas" and e: "repr_entries h kas kvs"
    using repr_dict' by blast
  from Nil.prems(2,4) t a have d: "distinct (cells_entries h kas kvs)"
    and na: "a \<notin> set (cells_entries h kas kvs)" and nx: "a \<notin> set (cells h x v)"
    and dj: "set (cells_entries h kas kvs) \<inter> set (cells h x v) = {}"
    by auto
  have "repr h' a (store_at t ([] @ [k]) v) \<and>
        distinct (cells h' a (store_at t ([] @ [k]) v)) \<and>
        set (cells h' a (store_at t ([] @ [k]) v)) \<subseteq> set (cells h a t) \<union> set (cells h x v)"
    if h': "h' a = ODict (AList.update k x kas)" and fr: "\<forall>b. b \<noteq> a \<longrightarrow> h' b = h b" for h'
    using entries_update [OF a fr x(1,2) nx e d na dj, of k] h' a na nx t by auto
  then show ?case using a t by auto
next
  case (Cons p pre)
  from Cons.prems(3) obtain kvs tc where t: "t = PDict kvs" and m: "map_of kvs p = Some tc"
    and l: "lookup_path tc (pre @ [k]) = Some old"
    by (cases t) (auto split: option.splits)
  from Cons.prems(1) t obtain kas where a: "h a = ODict kas" and e: "repr_entries h kas kvs"
    using repr_dict' by blast
  from repr_entries_map_of [OF e, of p] m obtain c where c: "map_of kas p = Some c"
    by (cases "map_of kas p") auto
  with repr_entries_map_of [OF e, of p] m have rc: "repr h c tc"
    and sub: "set (cells h c tc) \<subseteq> set (cells_entries h kas kvs)"
    and dc: "distinct (cells_entries h kas kvs) \<longrightarrow> distinct (cells h c tc)"
    by auto
  from Cons.prems(2,4) t a have d: "distinct (cells_entries h kas kvs)"
    and na: "a \<notin> set (cells_entries h kas kvs)" and nx: "a \<notin> set (cells h x v)"
    and dj: "set (cells_entries h kas kvs) \<inter> set (cells h x v) = {}"
    by auto
  from dc d have dct: "distinct (cells h c tc)" by simp
  from sub dj have djc: "set (cells h c tc) \<inter> set (cells h x v) = {}" by auto
  from Cons.IH [OF rc dct l djc] obtain cur kasc where
    sl: "store_lookup h c pre = Some cur" and hc: "h cur = ODict kasc"
    and cm: "cur \<in> set (cells h c tc)"
    and ih: "\<forall>h'. h' cur = ODict (AList.update k x kasc) \<longrightarrow> (\<forall>b. b \<noteq> cur \<longrightarrow> h' b = h b) \<longrightarrow>
              repr h' c (store_at tc (pre @ [k]) v) \<and>
              distinct (cells h' c (store_at tc (pre @ [k]) v)) \<and>
              set (cells h' c (store_at tc (pre @ [k]) v)) \<subseteq> set (cells h c tc) \<union> set (cells h x v)"
    by blast
  from cm sub na have ne: "a \<noteq> cur" by auto
  have st: "store_at t ((p # pre) @ [k]) v =
              PDict (AList.update p (store_at tc (pre @ [k]) v) kvs)"
    unfolding t using store_at_Cons [OF m, of "pre @ [k]" v] by simp
  have "repr h' a (store_at t ((p # pre) @ [k]) v) \<and>
        distinct (cells h' a (store_at t ((p # pre) @ [k]) v)) \<and>
        set (cells h' a (store_at t ((p # pre) @ [k]) v)) \<subseteq> set (cells h a t) \<union> set (cells h x v)"
    if h': "h' cur = ODict (AList.update k x kasc)" and fr: "\<forall>b. b \<noteq> cur \<longrightarrow> h' b = h b" for h'
  proof -
    from ih h' fr have r': "repr h' c (store_at tc (pre @ [k]) v)"
      and d': "distinct (cells h' c (store_at tc (pre @ [k]) v))"
      and s': "set (cells h' c (store_at tc (pre @ [k]) v)) \<subseteq> set (cells h c tc) \<union> set (cells h x v)"
      by blast+
    from fr ne have ha: "h' a = h a" by simp
    from entries_child [OF hc fr r' d' e d c m cm s' dj] show ?thesis
      unfolding st using a ha na nx t by auto
  qed
  moreover have "store_lookup h a (p # pre) = Some cur" using a c sl by simp
  moreover have "cur \<in> set (cells h a t)" using cm sub t a by auto
  ultimately show ?case using hc by blast
qed


lemma getitem_not_dict: "\<not> is_dict n \<Longrightarrow> py_getitem n k = Inl TypeError"
  by (cases n) auto

text \<open>Lines 101 to 117 on a store whose document is a tree.\<close>

lemma repr_remediate_path:
  assumes r: "repr h a t" and d: "distinct (cells h a t)"
    and x: "repr h x v" "distinct (cells h x v)"
    and dj: "set (cells h a t) \<inter> set (cells h x v) = {}"
    and ne: "parts \<noteq> []"
  shows "(\<forall>e. remediate_path t parts v = Inl e \<longrightarrow> store_remediate_path h a parts x = Inl e) \<and>
         (\<forall>t' out. remediate_path t parts v = Inr (t', out) \<longrightarrow>
            (\<exists>h' out'. store_remediate_path h a parts x = Inr (h', out') \<and> reports h out' out \<and>
               repr h' a t' \<and> distinct (cells h' a t') \<and>
               set (cells h' a t') \<subseteq> set (cells h a t) \<union> set (cells h x v) \<and>
               (\<forall>xs ts. repr_items h xs ts \<longrightarrow> set (cells_items h xs ts) \<inter> set (cells h a t) = {} \<longrightarrow>
                  repr_items h' xs ts \<and> cells_items h' xs ts = cells_items h xs ts)))"
proof -
  let ?pre = "butlast parts" and ?k = "last parts"
  have bl: "?pre @ [?k] = parts" using ne by simp
  have same: "\<exists>h' out'. Inr (h, so) = Inr (h', out') \<and> reports h out' to \<and>
               repr h' a t \<and> distinct (cells h' a t) \<and>
               set (cells h' a t) \<subseteq> set (cells h a t) \<union> set (cells h x v) \<and>
               (\<forall>xs ts. repr_items h xs ts \<longrightarrow> set (cells_items h xs ts) \<inter> set (cells h a t) = {} \<longrightarrow>
                  repr_items h' xs ts \<and> cells_items h' xs ts = cells_items h xs ts)"
    if "reports h so to" for so to
    using that r d by auto
  show ?thesis
  proof (cases "descend t ?pre")
    case (Inl e)
    with repr_descend [OF r d, of ?pre] have "store_descend h a ?pre = Inl e" by simp
    with Inl show ?thesis by (simp add: remediate_path_def store_remediate_path_def)
  next
    case (Inr on)
    show ?thesis
    proof (cases on)
      case None
      with Inr repr_descend [OF r d, of ?pre] have sd: "store_descend h a ?pre = Inr None" by simp
      have t1: "remediate_path t parts v = Inr (t, SkippedPathNotFound)"
        using Inr None by (simp add: remediate_path_def)
      have s1: "store_remediate_path h a parts x = Inr (h, PathNotFoundAt)"
        using sd by (simp add: store_remediate_path_def)
      from same [of PathNotFoundAt SkippedPathNotFound] show ?thesis
        unfolding t1 s1 by simp
    next
      case (Some n)
      with Inr have l: "lookup_path t ?pre = Some n" by (simp add: descend_lookup)
      from repr_lookup [OF r d l] obtain b where
        sl: "store_lookup h a ?pre = Some b" and sd: "store_descend h a ?pre = Inr (Some b)"
        and rb: "repr h b n" and sb: "set (cells h b n) \<subseteq> set (cells h a t)"
        by blast
      note co = repr_contains [OF rb, of ?k]
      show ?thesis
      proof (cases "py_contains n ?k")
        case (Inl e)
        with co Inr Some sd show ?thesis
          by (simp add: remediate_path_def store_remediate_path_def)
      next
        case c: (Inr present)
        show ?thesis
        proof (cases present)
          case False
          have t1: "remediate_path t parts v = Inr (t, SkippedPathNotFound)"
            using Inr Some c False by (simp add: remediate_path_def)
          have s1: "store_remediate_path h a parts x = Inr (h, PathNotFoundAt)"
            using sd co c False by (simp add: store_remediate_path_def)
          from same [of PathNotFoundAt SkippedPathNotFound] show ?thesis
            unfolding t1 s1 by simp
        next
          case True
          show ?thesis
          proof (cases "is_dict n")
            case False
            have t1: "remediate_path t parts v = Inl TypeError"
              using Inr Some c True getitem_not_dict [OF False, of ?k]
              by (simp add: remediate_path_def)
            have s1: "store_remediate_path h a parts x = Inl TypeError"
              using sd co c True repr_not_dict [OF rb False, of ?k]
              by (simp add: store_remediate_path_def)
            show ?thesis unfolding t1 s1 by simp
          next
            case dict: True
            then obtain kvs where n: "n = PDict kvs" by (cases n) auto
            from c True n have "?k \<in> fst ` set kvs" by simp
            then obtain old where m: "map_of kvs ?k = Some old"
              by (auto simp: mem_keys_iff)
            from rb n obtain kas where hb: "h b = ODict kas" and e: "repr_entries h kas kvs"
              using repr_dict' by blast
            from repr_entries_map_of [OF e, of ?k] m obtain oa where
              ma: "map_of kas ?k = Some oa" by (cases "map_of kas ?k") auto
            with repr_entries_map_of [OF e, of ?k] m have ro: "repr h oa old" by auto
            have lo: "lookup_path t (?pre @ [?k]) = Some old"
              using l n m by (simp add: lookup_path_snoc)
            then have lo': "lookup_path t parts = Some old" unfolding bl .
            have t1: "remediate_path t parts v = Inr (store_at t parts v, Applied old v)"
              using ne lo' by (rule remediate_path_resolves)
            have s1: "store_remediate_path h a parts x =
                        Inr (h(b := ODict (AList.update ?k x kas)), AppliedAt oa x)"
              using sd co c True hb ma n by (simp add: store_remediate_path_def)
            from repr_store_at [OF r d lo x dj] sl hb have bm: "b \<in> set (cells h a t)"
              and all: "\<forall>h'. h' b = ODict (AList.update ?k x kas) \<longrightarrow>
                          (\<forall>c. c \<noteq> b \<longrightarrow> h' c = h c) \<longrightarrow>
                          repr h' a (store_at t (?pre @ [?k]) v) \<and>
                          distinct (cells h' a (store_at t (?pre @ [?k]) v)) \<and>
                          set (cells h' a (store_at t (?pre @ [?k]) v))
                            \<subseteq> set (cells h a t) \<union> set (cells h x v)"
              by auto
            let ?h' = "h(b := ODict (AList.update ?k x kas))"
            have fr: "\<forall>c. c \<noteq> b \<longrightarrow> ?h' c = h c" by simp
            have hb': "?h' b = ODict (AList.update ?k x kas)" by simp
            from all hb' fr have new: "repr ?h' a (store_at t parts v) \<and>
                          distinct (cells ?h' a (store_at t parts v)) \<and>
                          set (cells ?h' a (store_at t parts v))
                            \<subseteq> set (cells h a t) \<union> set (cells h x v)"
              unfolding bl by blast
            have keep: "\<forall>xs ts. repr_items h xs ts \<longrightarrow>
                          set (cells_items h xs ts) \<inter> set (cells h a t) = {} \<longrightarrow>
                          repr_items ?h' xs ts \<and> cells_items ?h' xs ts = cells_items h xs ts"
            proof (intro allI impI)
              fix xs ts
              assume ri: "repr_items h xs ts"
                and "set (cells_items h xs ts) \<inter> set (cells h a t) = {}"
              with bm have "b \<notin> set (cells_items h xs ts)" by auto
              from frame(2) [OF hb fr ri this]
              show "repr_items ?h' xs ts \<and> cells_items ?h' xs ts = cells_items h xs ts" .
            qed
            have rep: "reports h (AppliedAt oa x) (Applied old v)" using ro x(1) by simp
            show ?thesis unfolding t1 s1 using new keep rep by blast
          qed
        qed
      qed
    qed
  qed
qed


lemma repr_entries_None:
  "repr_entries h kas kvs \<Longrightarrow> (map_of kas k = None) = (map_of kvs k = None)"
  using repr_entries_map_of [of h kas kvs k] by simp

lemma repr_get_not_dict: "repr h a t \<Longrightarrow> \<not> is_dict t \<Longrightarrow> obj_get (h a) k = Inl AttributeError"
  by (cases t) (auto split: pyobj.splits)

lemma get_not_dict: "\<not> is_dict t \<Longrightarrow> py_get t k = Inl AttributeError"
  by (cases t) auto

lemma split_not_str: "\<forall>s. t \<noteq> PStr s \<Longrightarrow> py_split t = Inl AttributeError"
  by (cases t) auto

text \<open>One call on a store whose document and finding are separate trees.\<close>

lemma repr_remediate:
  assumes r: "repr h config D" and d: "distinct (cells h config D)"
    and rm: "repr h m M" and dm: "distinct (cells h m M)"
    and dj: "set (cells h config D) \<inter> set (cells h m M) = {}"
  shows "\<exists>h' out'. store_remediate_misconfiguration h config m = (h', out') \<and>
           reports h out' (snd (remediate_misconfiguration D M)) \<and>
           repr h' config (fst (remediate_misconfiguration D M)) \<and>
           distinct (cells h' config (fst (remediate_misconfiguration D M))) \<and>
           set (cells h' config (fst (remediate_misconfiguration D M)))
             \<subseteq> set (cells h config D) \<union> set (cells h m M) \<and>
           (\<forall>xs ts. repr_items h xs ts \<longrightarrow>
              set (cells_items h xs ts) \<inter> set (cells h config D) = {} \<longrightarrow>
              repr_items h' xs ts \<and> cells_items h' xs ts = cells_items h xs ts)"
proof -
  have same: ?thesis
    if "store_remediate_misconfiguration h config m = (h, so)"
      and "remediate_misconfiguration D M = (D, to)" and "reports h so to" for so to
    using that r d by auto
  show ?thesis
  proof (cases "is_dict M")
    case False
    have "remediate_misconfiguration D M = (D, ErrorLogged AttributeError)"
      using get_not_dict [OF False]
      by (simp add: remediate_misconfiguration_def remediate_body_def)
    moreover have "store_remediate_misconfiguration h config m = (h, ErrorAt AttributeError)"
      using repr_get_not_dict [OF rm False]
      by (simp add: store_remediate_misconfiguration_def store_remediate_body_def)
    ultimately show ?thesis using same by simp
  next
    case True
    then obtain mkvs where M: "M = PDict mkvs" by (cases M) auto
    from rm M obtain mkas where hm: "h m = ODict mkas" and e: "repr_entries h mkas mkvs"
      using repr_dict' by blast
    from dm dj M hm have de: "distinct (cells_entries h mkas mkvs)"
      and dje: "set (cells h config D) \<inter> set (cells_entries h mkas mkvs) = {}"
      by auto
    have sub: "set (cells_entries h mkas mkvs) \<subseteq> set (cells h m M)" using M hm by auto
    note mp = repr_entries_map_of [OF e, of "''path''"]
    note mv = repr_entries_map_of [OF e, of "''suggested_value''"]
    have missing: ?thesis
      if "map_of mkas ''path'' = None \<or> map_of mkas ''suggested_value'' = None"
    proof -
      from that
      have "map_of mkvs ''path'' = None \<or> map_of mkvs ''suggested_value'' = None"
        unfolding repr_entries_None [OF e] .
      then have "remediate_misconfiguration D M = (D, SkippedMissingFields)"
        unfolding M by (auto simp: remediate_misconfiguration_def remediate_body_def)
      moreover from that have "store_remediate_misconfiguration h config m = (h, MissingFieldsAt)"
        using hm
        by (auto simp: store_remediate_misconfiguration_def store_remediate_body_def
                 split: option.splits)
      ultimately show ?thesis using same by simp
    qed
    show ?thesis
    proof (cases "map_of mkas ''path''")
      case None
      then show ?thesis using missing by simp
    next
      case sp: (Some p)
      show ?thesis
      proof (cases "map_of mkas ''suggested_value''")
        case None
        then show ?thesis using missing by simp
      next
        case sx: (Some x)
        from mp sp obtain tp where tp: "map_of mkvs ''path'' = Some tp" and rp: "repr h p tp"
          by auto
        from mv sx de obtain tv where tv: "map_of mkvs ''suggested_value'' = Some tv"
          and rx: "repr h x tv" and subx: "set (cells h x tv) \<subseteq> set (cells_entries h mkas mkvs)"
          and dx: "distinct (cells h x tv)"
          by auto
        from subx dje have djx: "set (cells h config D) \<inter> set (cells h x tv) = {}" by auto
        note tr = repr_truthy [OF rp] repr_truthy [OF rx]
        have tb: "remediate_body D M =
                    (if \<not> truthy tp \<or> \<not> truthy tv then Inr (D, SkippedMissingFields)
                     else case py_split tp of Inl e \<Rightarrow> Inl e
                          | Inr parts \<Rightarrow> remediate_path D parts tv)"
          unfolding M using tp tv by (simp add: remediate_body_def)
        have sb: "store_remediate_body h config m =
                    (if \<not> truthy tp \<or> \<not> truthy tv then Inr (h, MissingFieldsAt)
                     else case h p of OStr s \<Rightarrow> store_remediate_path h config (split_dot s) x
                          | _ \<Rightarrow> Inl AttributeError)"
          using hm sp sx tr by (simp add: store_remediate_body_def)
        show ?thesis
        proof (cases "\<not> truthy tp \<or> \<not> truthy tv")
          case True
          with tb sb same [of MissingFieldsAt SkippedMissingFields] show ?thesis
            by (simp add: remediate_misconfiguration_def store_remediate_misconfiguration_def)
        next
          case ok: False
          show ?thesis
          proof (cases "\<exists>s. tp = PStr s")
            case False
            then have ns: "\<forall>s. tp \<noteq> PStr s" by simp
            with repr_str [OF rp] have "\<forall>s. h p \<noteq> OStr s" by simp
            then have "(case h p of OStr s \<Rightarrow> store_remediate_path h config (split_dot s) x
                          | _ \<Rightarrow> Inl AttributeError) = Inl AttributeError"
              by (cases "h p") auto
            with sb ok have "store_remediate_misconfiguration h config m = (h, ErrorAt AttributeError)"
              by (simp add: store_remediate_misconfiguration_def)
            moreover from tb ok split_not_str [OF ns]
            have "remediate_misconfiguration D M = (D, ErrorLogged AttributeError)"
              by (simp add: remediate_misconfiguration_def)
            ultimately show ?thesis using same by simp
          next
            case True
            then obtain s where s: "tp = PStr s" by blast
            with repr_str [OF rp, of s] have hp: "h p = OStr s" by simp
            let ?parts = "split_dot s"
            from tb ok s have tb': "remediate_body D M = remediate_path D ?parts tv" by simp
            from sb ok hp have sb': "store_remediate_body h config m =
                                       store_remediate_path h config ?parts x" by simp
            note rpth = repr_remediate_path [OF r d rx dx djx split_dot_not_Nil [of s]]
            show ?thesis
            proof (cases "remediate_path D ?parts tv")
              case (Inl err)
              with rpth have "store_remediate_path h config ?parts x = Inl err" by blast
              with sb' have "store_remediate_misconfiguration h config m = (h, ErrorAt err)"
                by (simp add: store_remediate_misconfiguration_def)
              moreover from tb' Inl have "remediate_misconfiguration D M = (D, ErrorLogged err)"
                by (simp add: remediate_misconfiguration_def)
              ultimately show ?thesis using same by simp
            next
              case (Inr res)
              obtain t' out where res: "res = (t', out)" by (cases res)
              with rpth Inr obtain h' out' where
                sr: "store_remediate_path h config ?parts x = Inr (h', out')"
                and rest: "reports h out' out" "repr h' config t'" "distinct (cells h' config t')"
                  "set (cells h' config t') \<subseteq> set (cells h config D) \<union> set (cells h x tv)"
                  "\<forall>xs ts. repr_items h xs ts \<longrightarrow>
                     set (cells_items h xs ts) \<inter> set (cells h config D) = {} \<longrightarrow>
                     repr_items h' xs ts \<and> cells_items h' xs ts = cells_items h xs ts"
                by blast
              from sb' sr have s1: "store_remediate_misconfiguration h config m = (h', out')"
                by (simp add: store_remediate_misconfiguration_def)
              from tb' Inr res have t1: "remediate_misconfiguration D M = (t', out)"
                by (simp add: remediate_misconfiguration_def)
              from rest(4) subx sub
              have "set (cells h' config t') \<subseteq> set (cells h config D) \<union> set (cells h m M)"
                by blast
              with rest show ?thesis unfolding t1 s1 by simp
            qed
          qed
        qed
      qed
    qed
  qed
qed


lemma store_apply_findings_loop:
  "store_apply_findings h config ms = store_remediate_loop h config ms"
  by (simp add: store_apply_findings_def)

lemma remediate_loop_Cons_fst:
  "fst (remediate_loop D (M # Ms)) = fst (remediate_loop (fst (remediate_misconfiguration D M)) Ms)"
  by (simp add: case_prod_beta)

lemma remediate_loop_Cons_snd:
  "snd (remediate_loop D (M # Ms)) =
     snd (remediate_misconfiguration D M) #
     snd (remediate_loop (fst (remediate_misconfiguration D M)) Ms)"
  by (simp add: case_prod_beta)

text \<open>The loop on a store whose document and findings are separate trees.\<close>

lemma repr_loop:
  "repr h config D \<Longrightarrow> repr_items h F Ms \<Longrightarrow>
   distinct (cells h config D @ cells_items h F Ms) \<Longrightarrow>
   \<exists>h' outs'. store_remediate_loop h config F = (h', outs') \<and>
      repr h' config (fst (remediate_loop D Ms)) \<and>
      distinct (cells h' config (fst (remediate_loop D Ms))) \<and>
      set (cells h' config (fst (remediate_loop D Ms)))
        \<subseteq> set (cells h config D) \<union> set (cells_items h F Ms) \<and>
      reports_all h config F (snd (remediate_loop D Ms)) \<and>
      (\<forall>xs ts. repr_items h xs ts \<longrightarrow>
         set (cells_items h xs ts) \<inter> (set (cells h config D) \<union> set (cells_items h F Ms)) = {} \<longrightarrow>
         repr_items h' xs ts \<and> cells_items h' xs ts = cells_items h xs ts)"
proof (induction Ms arbitrary: h D F)
  case Nil
  then have "F = []" by simp
  with Nil show ?case by simp
next
  case (Cons M Ms)
  from Cons.prems(2) obtain m F' where F: "F = m # F'" and rm: "repr h m M"
    and rF: "repr_items h F' Ms"
    by (auto split: list.splits)
  from Cons.prems(3) have d: "distinct (cells h config D)" and dm: "distinct (cells h m M)"
    and dF: "distinct (cells_items h F' Ms)"
    and dj: "set (cells h config D) \<inter> set (cells h m M) = {}"
    and djF: "set (cells_items h F' Ms) \<inter> set (cells h config D) = {}"
    and djm: "set (cells h m M) \<inter> set (cells_items h F' Ms) = {}"
    unfolding F by auto
  let ?D1 = "fst (remediate_misconfiguration D M)"
  from repr_remediate [OF Cons.prems(1) d rm dm dj] obtain h1 out1 where
    s1: "store_remediate_misconfiguration h config m = (h1, out1)"
    and rep1: "reports h out1 (snd (remediate_misconfiguration D M))"
    and r1: "repr h1 config ?D1" and d1: "distinct (cells h1 config ?D1)"
    and sub1: "set (cells h1 config ?D1) \<subseteq> set (cells h config D) \<union> set (cells h m M)"
    and keep1: "\<forall>xs ts. repr_items h xs ts \<longrightarrow>
              set (cells_items h xs ts) \<inter> set (cells h config D) = {} \<longrightarrow>
              repr_items h1 xs ts \<and> cells_items h1 xs ts = cells_items h xs ts"
    by blast
  from keep1 rF djF have rF1: "repr_items h1 F' Ms"
    and cF1: "cells_items h1 F' Ms = cells_items h F' Ms" by blast+
  from d1 dF sub1 djF djm have dd: "distinct (cells h1 config ?D1 @ cells_items h1 F' Ms)"
    unfolding cF1 by auto
  from Cons.IH [OF r1 rF1 dd] obtain h2 outs where
    s2: "store_remediate_loop h1 config F' = (h2, outs)"
    and r2: "repr h2 config (fst (remediate_loop ?D1 Ms))"
    and d2: "distinct (cells h2 config (fst (remediate_loop ?D1 Ms)))"
    and sub2: "set (cells h2 config (fst (remediate_loop ?D1 Ms)))
                 \<subseteq> set (cells h1 config ?D1) \<union> set (cells_items h1 F' Ms)"
    and rep2: "reports_all h1 config F' (snd (remediate_loop ?D1 Ms))"
    and keep2: "\<forall>xs ts. repr_items h1 xs ts \<longrightarrow>
         set (cells_items h1 xs ts) \<inter> (set (cells h1 config ?D1) \<union> set (cells_items h1 F' Ms)) = {} \<longrightarrow>
         repr_items h2 xs ts \<and> cells_items h2 xs ts = cells_items h1 xs ts"
    by blast
  have run: "store_remediate_loop h config F = (h2, out1 # outs)"
    unfolding F using s1 s2 by simp
  have cellsF: "set (cells_items h F (M # Ms)) = set (cells h m M) \<union> set (cells_items h F' Ms)"
    unfolding F by auto
  have sub: "set (cells h2 config (fst (remediate_loop ?D1 Ms)))
               \<subseteq> set (cells h config D) \<union> set (cells_items h F (M # Ms))"
    using sub2 sub1 unfolding cF1 cellsF by blast
  have rep: "reports_all h config F (snd (remediate_loop D (M # Ms)))"
    unfolding F remediate_loop_Cons_snd using s1 rep1 rep2 by simp
  have keep: "\<forall>xs ts. repr_items h xs ts \<longrightarrow>
         set (cells_items h xs ts) \<inter> (set (cells h config D) \<union> set (cells_items h F (M # Ms))) = {} \<longrightarrow>
         repr_items h2 xs ts \<and> cells_items h2 xs ts = cells_items h xs ts"
  proof (intro allI impI)
    fix xs ts
    assume ri: "repr_items h xs ts"
      and di: "set (cells_items h xs ts) \<inter> (set (cells h config D) \<union> set (cells_items h F (M # Ms))) = {}"
    from di have "set (cells_items h xs ts) \<inter> set (cells h config D) = {}" by blast
    with keep1 ri have a1: "repr_items h1 xs ts" and c1: "cells_items h1 xs ts = cells_items h xs ts"
      by blast+
    from di sub1 have "set (cells_items h1 xs ts) \<inter>
            (set (cells h1 config ?D1) \<union> set (cells_items h1 F' Ms)) = {}"
      unfolding c1 cF1 cellsF by blast
    with keep2 a1 have "repr_items h2 xs ts \<and> cells_items h2 xs ts = cells_items h1 xs ts"
      by blast
    then show "repr_items h2 xs ts \<and> cells_items h2 xs ts = cells_items h xs ts"
      unfolding c1 .
  qed
  show ?case
    unfolding remediate_loop_Cons_fst using run r2 d2 sub rep keep by blast
qed

lemma cells_items_append:
  "repr_items h xs ts \<Longrightarrow>
   cells_items h (xs @ ys) (ts @ us) = cells_items h xs ts @ cells_items h ys us"
  by (induction ts arbitrary: xs) (auto split: list.splits)

section \<open>The remediation pass\<close>

text \<open>
  C4. Failure isolation: for every document and every list of findings, the pass returns
  one outcome per finding, in the order of the list; the outcome at position \<open>i\<close> is
  the outcome of \<^verbatim>\<open>remediate_misconfiguration\<close> on finding \<open>i\<close> and the document left by
  the findings before it, whatever those did (skipped, failed or applied).
\<close>

theorem failure_isolation:
  "length (snd (apply_findings config ms)) = length ms \<and>
   (\<forall>i < length ms.
      snd (apply_findings config ms) ! i =
      snd (remediate_misconfiguration (fst (apply_findings config (take i ms))) (ms ! i)))"
  by (simp add: apply_findings_loop remediate_loop_length remediate_loop_nth)

text \<open>
  A finding that is not even a dict raises inside the function, is logged, and the next
  finding is applied.
\<close>

theorem failure_isolation_witness:
  "(1::nat) < length [PStr ''bad'', finding ''security.password_policy.minimum_length'' (PInt 12)] \<and>
   snd (apply_findings scenario_config
          [PStr ''bad'', finding ''security.password_policy.minimum_length'' (PInt 12)]) ! 1 =
   snd (remediate_misconfiguration
          (fst (apply_findings scenario_config
             (take 1 [PStr ''bad'', finding ''security.password_policy.minimum_length'' (PInt 12)])))
          ([PStr ''bad'', finding ''security.password_policy.minimum_length'' (PInt 12)] ! 1)) \<and>
   snd (apply_findings scenario_config
          [PStr ''bad'', finding ''security.password_policy.minimum_length'' (PInt 12)]) =
     [ErrorLogged AttributeError, Applied (PInt 4) (PInt 12)]"
  using failure_isolation [of scenario_config
          "[PStr ''bad'', finding ''security.password_policy.minimum_length'' (PInt 12)]"]
  by (simp add: run_defs)

text \<open>
  C8. For every document, applying an empty list of findings returns the document as it
  is, with an empty list of outcomes.
\<close>

theorem empty_findings_noop: "apply_findings config [] = (config, [])"
  by (simp add: apply_findings_def)

section \<open>Loading\<close>

text \<open>
  C7. \<^verbatim>\<open>load_config\<close> tries YAML first: whenever the YAML parser accepts the text the
  result carries the tag YAML, whatever the JSON parser would say; a result tagged JSON
  means that the YAML parser rejected the text and the JSON parser accepted it; and the
  load fails as an unsupported format exactly when both parsers reject the text.
\<close>

theorem load_config_order:
  "(yaml_safe_load raw_text = Parsed config \<longrightarrow>
      load_config yaml_safe_load json_load (Some raw_text) = Inr (config, YAML)) \<and>
   (load_config yaml_safe_load json_load (Some raw_text) = Inr (config, JSON) \<longrightarrow>
      yaml_safe_load raw_text = Rejected \<and> json_load raw_text = Parsed config) \<and>
   (load_config yaml_safe_load json_load (Some raw_text) = Inl UnsupportedFormat \<longleftrightarrow>
      yaml_safe_load raw_text = Rejected \<and> json_load raw_text = Rejected)"
  by (auto simp: load_config_def split: parse_result.splits)


theorem load_config_order_witness:
  "load_config (\<lambda>t. Parsed (PInt 1)) (\<lambda>t. Parsed (PInt 1)) (Some ''1'') = Inr (PInt 1, YAML) \<and>
   load_config (\<lambda>t. Rejected) (\<lambda>t. Parsed (PInt 1)) (Some ''1'') = Inr (PInt 1, JSON) \<and>
   load_config (\<lambda>t. Rejected) (\<lambda>t. Rejected) (Some ''1'') = Inl UnsupportedFormat"
  using load_config_order [where yaml_safe_load = "\<lambda>t. Parsed (PInt 1)" and raw_text = "''1''"
          and config = "PInt 1" and json_load = "\<lambda>t. Parsed (PInt 1)"]
        load_config_order [where yaml_safe_load = "\<lambda>t. Rejected" and raw_text = "''1''"
          and config = "PInt 1" and json_load = "\<lambda>t. Parsed (PInt 1)"]
        load_config_order [where yaml_safe_load = "\<lambda>t. Rejected" and raw_text = "''1''"
          and config = "PInt 1" and json_load = "\<lambda>t. Rejected"]
  by (simp add: load_config_def)

section \<open>The field check\<close>

text \<open>
  C1. A finding with path "network.firewall.rules" and the empty list as suggested value,
  against a document with no "network" key: the document is unchanged, and the outcome
  the source reports is the missing-fields warning (line 96), since \<^verbatim>\<open>not []\<close> is true;
  the path is never looked at.
\<close>

theorem empty_list_value_reported_missing:
  "apply_findings scenario_config [finding ''network.firewall.rules'' (PList [])] =
     (scenario_config, [SkippedMissingFields])"
  by (simp add: run_defs)

text \<open>
  C5. The scenario of the specification holds: minimum\_length 4 becomes 12, reported as
  applied from 4 to 12. A finding whose path resolves and whose suggested value is
  \<^verbatim>\<open>False\<close> is not applied: the leaf keeps its value and the missing-fields warning is
  reported.
\<close>

theorem resolving_path_scenario_and_false_value:
  "apply_findings scenario_config
     [finding ''security.password_policy.minimum_length'' (PInt 12)] =
     (PDict [(''security'', PDict [(''password_policy'', PDict [(''minimum_length'', PInt 12)])])],
      [Applied (PInt 4) (PInt 12)]) \<and>
   apply_findings (PDict [(''debug'', PBool True)]) [finding ''debug'' (PBool False)] =
     (PDict [(''debug'', PBool True)], [SkippedMissingFields])"
  by (simp add: run_defs)

section \<open>One finding\<close>

text \<open>
  C9. \<^verbatim>\<open>remediate_misconfiguration\<close> never lets an exception out: whenever the body of
  the \<^verbatim>\<open>try\<close> block raises, the function returns the configuration it was given, with
  the error logged. And every call ends in one of four ways: an error logged, the
  missing-fields warning or the path-not-found warning, each with the configuration
  returned as it was given; or exactly one assignment, at a path that resolved, after
  which the path holds the suggested value.
\<close>

theorem remediate_never_raises_and_atomic:
  "(\<forall>e. remediate_body config m = Inl e \<longrightarrow>
        remediate_misconfiguration config m = (config, ErrorLogged e)) \<and>
   ((\<exists>e. remediate_misconfiguration config m = (config, ErrorLogged e)) \<or>
    remediate_misconfiguration config m = (config, SkippedMissingFields) \<or>
    remediate_misconfiguration config m = (config, SkippedPathNotFound) \<or>
    (\<exists>parts old new. parts \<noteq> [] \<and> lookup_path config parts = Some old \<and>
       remediate_misconfiguration config m = (store_at config parts new, Applied old new) \<and>
       lookup_path (store_at config parts new) parts = Some new))"
proof
  show "\<forall>e. remediate_body config m = Inl e \<longrightarrow>
          remediate_misconfiguration config m = (config, ErrorLogged e)"
    by (simp add: remediate_misconfiguration_def)
next
  from remediate_body_cases [of config m]
  consider e where "remediate_body config m = Inl e"
    | "remediate_body config m = Inr (config, SkippedMissingFields)"
    | s v where "s \<noteq> []" "remediate_body config m = remediate_path config (split_dot s) v"
    by blast
  then show "(\<exists>e. remediate_misconfiguration config m = (config, ErrorLogged e)) \<or>
    remediate_misconfiguration config m = (config, SkippedMissingFields) \<or>
    remediate_misconfiguration config m = (config, SkippedPathNotFound) \<or>
    (\<exists>parts old new. parts \<noteq> [] \<and> lookup_path config parts = Some old \<and>
       remediate_misconfiguration config m = (store_at config parts new, Applied old new) \<and>
       lookup_path (store_at config parts new) parts = Some new)"
  proof cases
    case 1
    then show ?thesis by (simp add: remediate_misconfiguration_def)
  next
    case 2
    then show ?thesis by (simp add: remediate_misconfiguration_def)
  next
    case 3
    let ?parts = "split_dot s"
    have ne: "?parts \<noteq> []" by (rule split_dot_not_Nil)
    then have bl: "butlast ?parts @ [last ?parts] = ?parts" by simp
    from remediate_path_cases [of config ?parts v]
    consider e where "remediate_path config ?parts v = Inl e"
      | "remediate_path config ?parts v = Inr (config, SkippedPathNotFound)"
      | old where "remediate_path config ?parts v = Inr (store_at config ?parts v, Applied old v)"
          "lookup_path config ?parts = Some old"
      unfolding bl by blast
    then show ?thesis
    proof cases
      case 1
      with 3 show ?thesis by (simp add: remediate_misconfiguration_def)
    next
      case 2
      with 3 show ?thesis by (simp add: remediate_misconfiguration_def)
    next
      case inner: 3
      from inner(2) ne have "lookup_path (store_at config ?parts v) ?parts = Some v"
        by (rule store_at_same)
      with 3 inner ne show ?thesis
        by (auto simp: remediate_misconfiguration_def)
    qed
  qed
qed

text \<open>
  A \<^verbatim>\<open>TypeError\<close> in the middle of the walk (the segment "b" is looked up in the
  number 5) leaves the configuration as it was.
\<close>

theorem remediate_never_raises_and_atomic_witness:
  "remediate_body (PDict [(''a'', PInt 5)]) (finding ''a.b.c'' (PInt 1)) = Inl TypeError \<and>
   remediate_misconfiguration (PDict [(''a'', PInt 5)]) (finding ''a.b.c'' (PInt 1)) =
     (PDict [(''a'', PInt 5)], ErrorLogged TypeError)"
  using remediate_never_raises_and_atomic
          [of "PDict [(''a'', PInt 5)]" "finding ''a.b.c'' (PInt 1)"]
  by (simp add: remediate_body_def remediate_path_def split_dot_def finding_def)

text \<open>
  C10, as amended. Frame of a successful application. When a call reports an applied
  change, the walk along the path without its last segment has reached a dict object in
  which the last segment was bound to the old object, and the store after the call is
  the store before it with that key of that dict bound to the finding's
  \<^verbatim>\<open>suggested_value\<close> object: the dict keeps its keys in their order, every other key of
  it keeps its object, and every other object of the store is as it was, so that no key
  and no container is created. A path of the document reads the same object as before
  unless its walk reads that key of that dict. When the dict is reached from the root
  by the finding's parent path only, every path that does not extend the finding's path
  reads the same object as before.
\<close>

theorem successful_application_frame:
  assumes "store_remediate_misconfiguration h config m = (h', AppliedAt old new)"
  shows "\<exists>p s current kas.
           obj_get (h m) ''path'' = Inr (Some p) \<and> h p = OStr s \<and>
           obj_get (h m) ''suggested_value'' = Inr (Some new) \<and>
           store_lookup h config (butlast (split_dot s)) = Some current \<and>
           h current = ODict kas \<and> map_of kas (last (split_dot s)) = Some old \<and>
           h' = h(current := ODict (AList.update (last (split_dot s)) new kas)) \<and>
           map_of (AList.update (last (split_dot s)) new kas) (last (split_dot s)) = Some new \<and>
           map fst (AList.update (last (split_dot s)) new kas) = map fst kas \<and>
           (\<forall>k. k \<noteq> last (split_dot s) \<longrightarrow>
                  map_of (AList.update (last (split_dot s)) new kas) k = map_of kas k) \<and>
           (\<forall>b. b \<noteq> current \<longrightarrow> h' b = h b) \<and>
           (\<forall>qs. (current, last (split_dot s)) \<notin> set (store_edges h config qs) \<longrightarrow>
                  store_lookup h' config qs = store_lookup h config qs) \<and>
           ((\<forall>q. store_lookup h config q = Some current \<longrightarrow> q = butlast (split_dot s)) \<longrightarrow>
              (\<forall>qs. \<not> prefix (split_dot s) qs \<longrightarrow>
                     store_lookup h' config qs = store_lookup h config qs))"
proof -
  from store_remediate_Applied [OF assms] obtain p s where
    f: "obj_get (h m) ''path'' = Inr (Some p)" "h p = OStr s"
       "obj_get (h m) ''suggested_value'' = Inr (Some new)"
    and r: "store_remediate_path h config (split_dot s) new = Inr (h', AppliedAt old new)"
    by blast
  let ?parts = "split_dot s"
  from store_remediate_path_Applied [OF r] obtain current kas where
    d: "store_descend h config (butlast ?parts) = Inr (Some current)"
    and c: "h current = ODict kas" and o: "map_of kas (last ?parts) = Some old"
    and h': "h' = h(current := ODict (AList.update (last ?parts) new kas))"
    by blast
  have l: "store_lookup h config (butlast ?parts) = Some current"
    using d by (rule store_descend_lookup)
  have bl: "butlast ?parts @ [last ?parts] = ?parts" by (simp add: split_dot_not_Nil)
  have mem: "last ?parts \<in> fst ` set kas" using map_of_SomeD [OF o] by force
  have keys: "map fst (AList.update (last ?parts) new kas) = map fst kas"
    using mem by (simp add: update_keys)
  have bound: "map_of (AList.update (last ?parts) new kas) (last ?parts) = Some new"
    by (simp add: update_conv')
  have others: "\<forall>k. k \<noteq> last ?parts \<longrightarrow>
                  map_of (AList.update (last ?parts) new kas) k = map_of kas k"
    by (simp add: update_conv')
  have rest: "\<forall>b. b \<noteq> current \<longrightarrow> h' b = h b" by (simp add: h')
  have fr: "\<forall>qs. (current, last ?parts) \<notin> set (store_edges h config qs) \<longrightarrow>
                  store_lookup h' config qs = store_lookup h config qs"
    unfolding h' using store_lookup_frame [of h current kas, OF c] by blast
  have un: "(\<forall>q. store_lookup h config q = Some current \<longrightarrow> q = butlast ?parts) \<longrightarrow>
              (\<forall>qs. \<not> prefix ?parts qs \<longrightarrow>
                     store_lookup h' config qs = store_lookup h config qs)"
  proof (intro impI allI)
    fix qs
    assume u: "\<forall>q. store_lookup h config q = Some current \<longrightarrow> q = butlast ?parts"
      and np: "\<not> prefix ?parts qs"
    have "(current, last ?parts) \<notin> set (store_edges h config qs)"
    proof
      assume "(current, last ?parts) \<in> set (store_edges h config qs)"
      from store_edges_reach [OF this] obtain pre rest' where
        q: "qs = pre @ last ?parts # rest'" and "store_lookup h config pre = Some current"
        by blast
      with u have "pre = butlast ?parts" by blast
      with q bl have "qs = ?parts @ rest'" by (metis append.assoc append_Cons append_Nil)
      with np show False by simp
    qed
    with fr show "store_lookup h' config qs = store_lookup h config qs" by blast
  qed
  show ?thesis
    apply (rule exI [of _ p], rule exI [of _ s], rule exI [of _ current], rule exI [of _ kas])
    using f l c o h' bound keys others rest fr un by (intro conjI)
qed

text \<open>The scenario of the specification, on a store without shared dicts.\<close>

theorem successful_application_frame_witness:
  "store_remediate_misconfiguration scenario_store 0 10 =
     (scenario_store(2 := ODict [(''minimum_length'', 12)]), AppliedAt 3 12) \<and>
   scenario_store 3 = OInt 4 \<and> scenario_store 12 = OInt 12 \<and>
   \<not> prefix [''security'', ''password_policy'', ''minimum_length''] [''security'', ''password_policy''] \<and>
   store_lookup (scenario_store(2 := ODict [(''minimum_length'', 12)])) 0 [''security'', ''password_policy''] =
     store_lookup scenario_store 0 [''security'', ''password_policy''] \<and>
   store_lookup scenario_store 0 [''security'', ''password_policy''] = Some 2"
proof -
  have r: "store_remediate_misconfiguration scenario_store 0 10 =
     (scenario_store(2 := ODict [(''minimum_length'', 12)]), AppliedAt 3 12)"
    by (simp add: store_defs scenario_store_def)
  from successful_application_frame [OF r] obtain p s current kas where
    p: "obj_get (scenario_store 10) ''path'' = Inr (Some p)" and s: "scenario_store p = OStr s"
    and c: "store_lookup scenario_store 0 (butlast (split_dot s)) = Some current"
    and u: "(\<forall>q. store_lookup scenario_store 0 q = Some current \<longrightarrow> q = butlast (split_dot s)) \<longrightarrow>
              (\<forall>qs. \<not> prefix (split_dot s) qs \<longrightarrow>
                     store_lookup (scenario_store(2 := ODict [(''minimum_length'', 12)])) 0 qs =
                     store_lookup scenario_store 0 qs)"
    by blast
  from p have "p = 11" by (simp add: scenario_store_def)
  with s have s': "s = ''security.password_policy.minimum_length''" by (simp add: scenario_store_def)
  have parts: "split_dot s = [''security'', ''password_policy'', ''minimum_length'']"
    unfolding s' by (simp add: split_dot_def)
  from c have cur: "current = 2" unfolding parts by (simp add: scenario_store_def)
  have "\<forall>q. store_lookup scenario_store 0 q = Some current \<longrightarrow> q = butlast (split_dot s)"
    unfolding cur parts using scenario_unique by simp
  with u have fa: "\<forall>qs. \<not> prefix (split_dot s) qs \<longrightarrow>
                     store_lookup (scenario_store(2 := ODict [(''minimum_length'', 12)])) 0 qs =
                     store_lookup scenario_store 0 qs" by blast
  have "store_lookup (scenario_store(2 := ODict [(''minimum_length'', 12)])) 0
                 [''security'', ''password_policy''] =
             store_lookup scenario_store 0 [''security'', ''password_policy'']"
    by (rule fa [unfolded parts, rule_format]) simp
  moreover have "store_lookup scenario_store 0 [''security'', ''password_policy''] = Some 2"
    and "scenario_store 3 = OInt 4" and "scenario_store 12 = OInt 12"
    by (simp_all add: scenario_store_def)
  ultimately show ?thesis using r by simp
qed

text \<open>
  The claim as stated, that every other key, value and subtree of the document is
  unchanged, fails where the dict reached is shared. In the document
  \<^verbatim>\<open>base: &b {x: 1}\<close>, \<^verbatim>\<open>other: *b\<close> the finding that sets \<^verbatim>\<open>base.x\<close> to 2 is applied,
  and the path \<^verbatim>\<open>other.x\<close>, which neither extends the finding's path nor is a prefix of
  it, read 1 before the call and reads 2 after it.
\<close>

theorem successful_application_frame_counterexample:
  "snd (store_remediate_misconfiguration alias_store 0 10) = AppliedAt 2 12 \<and>
   store_lookup alias_store 0 [''other'', ''x''] = Some 2 \<and> alias_store 2 = OInt 1 \<and>
   store_lookup (fst (store_remediate_misconfiguration alias_store 0 10)) 0 [''other'', ''x''] = Some 12 \<and>
   fst (store_remediate_misconfiguration alias_store 0 10) 12 = OInt 2 \<and>
   \<not> prefix [''base'', ''x''] [''other'', ''x''] \<and> \<not> prefix [''other'', ''x''] [''base'', ''x'']"
  by (simp add: store_defs alias_store_def)

section \<open>Paths that do not resolve\<close>

text \<open>
  C6. A finding that carries both fields and whose path does not resolve, the final key
  being absent from the dict reached: path "security.password\_policy.max\_age" in the
  scenario document, with suggested value 0. The document is unchanged, and the outcome
  reported is the missing-fields warning of line 96, since \<^verbatim>\<open>not 0\<close> is true; the path
  is never looked at. With the suggested value 90 the same path is reported as not
  found.
\<close>

theorem unresolved_path_zero_value_reported_missing:
  "lookup_path scenario_config (split_dot ''security.password_policy.max_age'') = None \<and>
   remediate_misconfiguration scenario_config
     (finding ''security.password_policy.max_age'' (PInt 0)) =
     (scenario_config, SkippedMissingFields) \<and>
   remediate_misconfiguration scenario_config
     (finding ''security.password_policy.max_age'' (PInt 90)) =
     (scenario_config, SkippedPathNotFound)"
  by (simp add: run_defs)

text \<open>
  C3. A finding whose walk reaches a string that contains the next segment: the document
  \<^verbatim>\<open>{"a": "abc"}\<close> and the path "a.b". The test of line 112 is a substring test on a
  string and succeeds, the subscript of line 113 raises a \<^verbatim>\<open>TypeError\<close>, and the handler
  of line 120 logs an error; the document is unchanged. On the same node the path "a.x"
  takes the path-not-found branch. The same error is logged for a list that contains
  the segment as an element, and for a number.
\<close>

theorem non_mapping_node_raises:
  "remediate_misconfiguration (PDict [(''a'', PStr ''abc'')]) (finding ''a.b'' (PInt 1)) =
     (PDict [(''a'', PStr ''abc'')], ErrorLogged TypeError) \<and>
   remediate_misconfiguration (PDict [(''a'', PStr ''abc'')]) (finding ''a.x'' (PInt 1)) =
     (PDict [(''a'', PStr ''abc'')], SkippedPathNotFound) \<and>
   remediate_misconfiguration (PDict [(''a'', PList [PStr ''b''])]) (finding ''a.b.c'' (PInt 1)) =
     (PDict [(''a'', PList [PStr ''b''])], ErrorLogged TypeError) \<and>
   remediate_misconfiguration (PDict [(''a'', PInt 5)]) (finding ''a.b'' (PInt 1)) =
     (PDict [(''a'', PInt 5)], ErrorLogged TypeError)"
  by (simp add: run_defs)

section \<open>Applying a list twice\<close>

text \<open>
  C2, as amended. Let the store hold the document and two copies of the finding list,
  each as a tree, with no list or dict object shared within or between them: the
  document as it is loaded from a file without aliases, the report parsed twice, as two
  runs of the tool do. Then the first pass leaves the document that the function on
  trees computes, and the second pass, given the second copy, leaves that same document:
  the second pass changes no value of the document. The reports of the first pass show
  the outcomes computed on trees. When the list is independent (no two findings that
  pass the field check have paths of which one equals or is a prefix of the other; a
  single finding always is), the reports of the second pass show the outcomes of the
  first, with an applied change from an old value to the suggested value turned into a
  change from the suggested value to itself.
\<close>

theorem apply_twice:
  assumes "repr h config D" and "repr_items h F Ms" and "repr_items h F' Ms"
    and "distinct (cells h config D @ cells_items h F Ms @ cells_items h F' Ms)"
  shows "repr (fst (store_apply_findings h config F)) config (fst (apply_findings D Ms)) \<and>
         repr (fst (store_apply_findings (fst (store_apply_findings h config F)) config F'))
           config (fst (apply_findings D Ms)) \<and>
         reports_all h config F (snd (apply_findings D Ms)) \<and>
         (independent Ms \<longrightarrow>
            reports_all (fst (store_apply_findings h config F)) config F'
              (map settled (snd (apply_findings D Ms))))"
proof -
  let ?D1 = "fst (remediate_loop D Ms)"
  from assms(4) have dd: "distinct (cells h config D @ cells_items h F Ms)"
    and dF': "distinct (cells_items h F' Ms)"
    and dj: "set (cells_items h F' Ms) \<inter> (set (cells h config D) \<union> set (cells_items h F Ms)) = {}"
    by auto
  from repr_loop [OF assms(1,2) dd] obtain h1 outs1 where
    s1: "store_remediate_loop h config F = (h1, outs1)"
    and r1: "repr h1 config ?D1" and d1: "distinct (cells h1 config ?D1)"
    and sub1: "set (cells h1 config ?D1) \<subseteq> set (cells h config D) \<union> set (cells_items h F Ms)"
    and rep1: "reports_all h config F (snd (remediate_loop D Ms))"
    and keep1: "\<forall>xs ts. repr_items h xs ts \<longrightarrow>
         set (cells_items h xs ts) \<inter> (set (cells h config D) \<union> set (cells_items h F Ms)) = {} \<longrightarrow>
         repr_items h1 xs ts \<and> cells_items h1 xs ts = cells_items h xs ts"
    by blast
  from keep1 assms(3) dj have rF: "repr_items h1 F' Ms"
    and cF: "cells_items h1 F' Ms = cells_items h F' Ms" by blast+
  from d1 dF' sub1 dj have dd1: "distinct (cells h1 config ?D1 @ cells_items h1 F' Ms)"
    unfolding cF by auto
  from repr_loop [OF r1 rF dd1] obtain h2 outs2 where
    s2: "store_remediate_loop h1 config F' = (h2, outs2)"
    and r2: "repr h2 config (fst (remediate_loop ?D1 Ms))"
    and rep2: "reports_all h1 config F' (snd (remediate_loop ?D1 Ms))"
    by blast
  from r2 have r2': "repr h2 config ?D1" by (simp add: loop_document_idempotent)
  have "independent Ms \<longrightarrow> reports_all h1 config F' (map settled (snd (remediate_loop D Ms)))"
  proof
    assume "independent Ms"
    from independent_settled [OF this, of D] rep2
    show "reports_all h1 config F' (map settled (snd (remediate_loop D Ms)))" by simp
  qed
  with r1 r2' rep1 show ?thesis
    unfolding store_apply_findings_loop apply_findings_loop s1 s2 fst_conv by simp
qed

text \<open>
  A document with a nested dict, a finding with a number and a finding with a dict as
  suggested value, and the second copy of both.
\<close>

theorem apply_twice_witness:
  "repr copies_store 0 (PDict [(''a'', PInt 1), (''b'', PDict [(''c'', PInt 2)])]) \<and>
   repr_items copies_store [10, 20] [finding ''a'' (PInt 7), finding ''b.c'' (PDict [(''d'', PInt 8)])] \<and>
   repr_items copies_store [30, 40] [finding ''a'' (PInt 7), finding ''b.c'' (PDict [(''d'', PInt 8)])] \<and>
   distinct (cells copies_store 0 (PDict [(''a'', PInt 1), (''b'', PDict [(''c'', PInt 2)])]) @
             cells_items copies_store [10, 20]
               [finding ''a'' (PInt 7), finding ''b.c'' (PDict [(''d'', PInt 8)])] @
             cells_items copies_store [30, 40]
               [finding ''a'' (PInt 7), finding ''b.c'' (PDict [(''d'', PInt 8)])]) \<and>
   independent [finding ''a'' (PInt 7), finding ''b.c'' (PDict [(''d'', PInt 8)])] \<and>
   apply_findings (PDict [(''a'', PInt 1), (''b'', PDict [(''c'', PInt 2)])])
     [finding ''a'' (PInt 7), finding ''b.c'' (PDict [(''d'', PInt 8)])] =
     (PDict [(''a'', PInt 7), (''b'', PDict [(''c'', PDict [(''d'', PInt 8)])])],
      [Applied (PInt 1) (PInt 7), Applied (PInt 2) (PDict [(''d'', PInt 8)])]) \<and>
   repr (fst (store_apply_findings (fst (store_apply_findings copies_store 0 [10, 20])) 0 [30, 40])) 0
     (PDict [(''a'', PInt 7), (''b'', PDict [(''c'', PDict [(''d'', PInt 8)])])]) \<and>
   reports_all (fst (store_apply_findings copies_store 0 [10, 20])) 0 [30, 40]
     [Applied (PInt 7) (PInt 7), Applied (PDict [(''d'', PInt 8)]) (PDict [(''d'', PInt 8)])]"
proof -
  let ?D = "PDict [(''a'', PInt 1), (''b'', PDict [(''c'', PInt 2)])]"
  let ?Ms = "[finding ''a'' (PInt 7), finding ''b.c'' (PDict [(''d'', PInt 8)])]"
  have a: "repr copies_store 0 ?D" "repr_items copies_store [10, 20] ?Ms"
    "repr_items copies_store [30, 40] ?Ms"
    by (simp_all add: copies_store_def finding_def)
  have b: "distinct (cells copies_store 0 ?D @ cells_items copies_store [10, 20] ?Ms @
                     cells_items copies_store [30, 40] ?Ms)"
    by (simp add: copies_store_def finding_def)
  have i: "independent ?Ms" by (simp add: apart_def target_def finding_def split_dot_def)
  have r: "apply_findings ?D ?Ms =
     (PDict [(''a'', PInt 7), (''b'', PDict [(''c'', PDict [(''d'', PInt 8)])])],
      [Applied (PInt 1) (PInt 7), Applied (PInt 2) (PDict [(''d'', PInt 8)])])"
    by (simp add: run_defs)
  from apply_twice [OF a b] i show ?thesis using a b r by simp
qed

text \<open>
  The claim as stated fails on outcomes: the first finding is applied in the first pass,
  and in the second pass its path is gone, because the second finding has replaced the
  dict that held it.
\<close>

theorem apply_twice_counterexample:
  "snd (apply_findings (PDict [(''a'', PDict [(''b'', PInt 0)])])
          [finding ''a.b'' (PInt 1), finding ''a'' (PDict [(''c'', PInt 5)])]) =
     [Applied (PInt 0) (PInt 1), Applied (PDict [(''b'', PInt 1)]) (PDict [(''c'', PInt 5)])] \<and>
   snd (apply_findings
          (fst (apply_findings (PDict [(''a'', PDict [(''b'', PInt 0)])])
                  [finding ''a.b'' (PInt 1), finding ''a'' (PDict [(''c'', PInt 5)])]))
          [finding ''a.b'' (PInt 1), finding ''a'' (PDict [(''c'', PInt 5)])]) =
     [SkippedPathNotFound, Applied (PDict [(''c'', PInt 5)]) (PDict [(''c'', PInt 5)])]"
  by (simp add: run_defs)

text \<open>
  The very same finding objects applied again in the same process need not even leave
  the document as it was. The first pass stores the second finding's suggested value, a
  dict, in the document; in the second pass the first finding writes 6 into that dict,
  which is part of the document and the value of the second finding at once. The
  document reads 5 at "a.c" after the first pass and 6 after the second, and the first
  finding is applied from 5 to 6.
\<close>

theorem same_objects_twice:
  "snd (store_remediate_loop nested_store 0 [10, 20]) = [AppliedAt 2 12, AppliedAt 1 22] \<and>
   store_lookup (fst (store_remediate_loop nested_store 0 [10, 20])) 0 [''a'', ''c''] = Some 23 \<and>
   fst (store_remediate_loop nested_store 0 [10, 20]) 23 = OInt 5 \<and>
   snd (store_remediate_loop (fst (store_remediate_loop nested_store 0 [10, 20])) 0 [10, 20]) =
     [AppliedAt 23 12, AppliedAt 22 22] \<and>
   store_lookup
     (fst (store_remediate_loop (fst (store_remediate_loop nested_store 0 [10, 20])) 0 [10, 20]))
     0 [''a'', ''c''] = Some 12 \<and>
   fst (store_remediate_loop (fst (store_remediate_loop nested_store 0 [10, 20])) 0 [10, 20]) 12 = OInt 6"
  by (simp add: store_defs nested_store_def)

text \<open>
  Where the document has a shared dict, the reports of the second pass need not be
  changes from a value to itself even for an independent list and a second copy of the
  findings: both paths lead to the one dict, the first pass leaves 7 in it, and the
  second pass changes it from 7 to 5 and from 5 to 7.
\<close>

theorem shared_document_twice:
  "independent [finding ''a.x'' (PInt 5), finding ''b.x'' (PInt 7)] \<and>
   repr_items shared_store [10, 20] [finding ''a.x'' (PInt 5), finding ''b.x'' (PInt 7)] \<and>
   repr_items shared_store [30, 40] [finding ''a.x'' (PInt 5), finding ''b.x'' (PInt 7)] \<and>
   snd (store_apply_findings shared_store 0 [10, 20]) = [AppliedAt 2 12, AppliedAt 12 22] \<and>
   snd (store_apply_findings (fst (store_apply_findings shared_store 0 [10, 20])) 0 [30, 40]) =
     [AppliedAt 22 32, AppliedAt 32 42] \<and>
   shared_store 22 = OInt 7 \<and> shared_store 32 = OInt 5 \<and> shared_store 42 = OInt 7"
  by (simp add: store_defs store_apply_findings_def shared_store_def apart_def target_def
        finding_def)

end
